theory Spec2Isabelle
  imports Main "HOL-Library.Sublist"
begin

section \<open>Values, errors and effects\<close>

text \<open>
  \<^verbatim>\<open>utils/scratch.py\<close> talks to the MediaWiki API with \<^verbatim>\<open>requests\<close> and works on
  whatever \<^verbatim>\<open>resp.json()\<close> hands back. A parsed JSON document is a value of type
  \<open>json\<close>: \<^verbatim>\<open>None\<close>, a bool, an int, a str, a list, or a dict. A dict is the list of
  its items in insertion order (keys distinct, as in a Python dict); non-integer
  numbers are left out, the fields the code compares (\<^verbatim>\<open>totalhits\<close>, \<^verbatim>\<open>ns\<close>) being
  integer fields of the API.
\<close>

datatype json =
    JNull
  | JBool bool
  | JInt int
  | JStr string
  | JList "json list"
  | JObj "(string \<times> json) list"

text \<open>
  The exceptions the code can meet. \<open>RequestFault\<close> stands for any exception of the
  HTTP layer (\<^verbatim>\<open>sess.get\<close> or \<^verbatim>\<open>resp.json()\<close> raising); it is not a \<^verbatim>\<open>KeyError\<close>.
\<close>

datatype py_error = KeyError | TypeError | AttributeError | RequestFault

text \<open>
  What one \<^verbatim>\<open>sess.get(...)\<close> followed by \<^verbatim>\<open>resp.json()\<close> yields. The network is a
  script: the list of the results of the successive requests, consumed one per request.
\<close>

datatype http_result = Fault | Body json

text \<open>
  The observable effects, in the order they happen: the query parameters of each GET
  (the constant ones, \<^verbatim>\<open>action\<close>, \<^verbatim>\<open>format\<close>, \<^verbatim>\<open>list\<close>, \<^verbatim>\<open>prop\<close>, are left out) and the
  three logging calls of \<^verbatim>\<open>get_links\<close>.
\<close>

datatype event =
    SearchRequest string string             \<comment> \<open>\<^verbatim>\<open>srlimit\<close>, \<^verbatim>\<open>srsearch\<close>\<close>
  | LinksRequest string int "json option"   \<comment> \<open>\<^verbatim>\<open>titles\<close>, \<^verbatim>\<open>pllimit\<close>, \<^verbatim>\<open>plcontinue\<close> when present\<close>
  | LogErrorNoLinks string                  \<comment> \<open>\<^verbatim>\<open>logging.error("Unable to get links ...", page_name)\<close>\<close>
  | LogInfoContinue string json             \<comment> \<open>\<^verbatim>\<open>logging.info("%s plcontinue: %s", ...)\<close>\<close>
  | LogInfoFewer string "int option"        \<comment> \<open>\<^verbatim>\<open>logging.info("%s has fewer links than %i", ...)\<close>\<close>

text \<open>
  How a call ends: it returns a value, it raises, or the script of responses ends while
  the call waits for the answer to the request it has just sent (\<open>Blocked\<close>: the call
  has not returned).
\<close>

datatype 'a outcome = Return 'a | Raise py_error | Blocked

subsection \<open>The Python operations the code applies to JSON values\<close>

text \<open>\<^verbatim>\<open>obj[key]\<close> with a string key: only a dict can be subscripted by a string.\<close>

fun getitem :: "json \<Rightarrow> string \<Rightarrow> py_error + json" where
  "getitem (JObj kvs) k = (case map_of kvs k of None \<Rightarrow> Inl KeyError | Some v \<Rightarrow> Inr v)"
| "getitem _ k = Inl TypeError"

text \<open>\<^verbatim>\<open>obj[key] = v\<close> with a string key: an existing key keeps its place, a new one goes last.\<close>

fun set_key :: "(string \<times> json) list \<Rightarrow> string \<Rightarrow> json \<Rightarrow> (string \<times> json) list" where
  "set_key [] k v = [(k, v)]"
| "set_key ((k', v') # kvs) k v = (if k' = k then (k, v) # kvs else (k', v') # set_key kvs k v)"

fun setitem :: "json \<Rightarrow> string \<Rightarrow> json \<Rightarrow> py_error + json" where
  "setitem (JObj kvs) k v = Inr (JObj (set_key kvs k v))"
| "setitem _ k v = Inl TypeError"

text \<open>\<^verbatim>\<open>x == 0\<close>: true of the integer 0 and of \<^verbatim>\<open>False\<close> (a Python bool is an int).\<close>

fun py_eq0 :: "json \<Rightarrow> bool" where
  "py_eq0 (JInt n) = (n = 0)"
| "py_eq0 (JBool b) = (\<not> b)"
| "py_eq0 _ = False"

text \<open>
  \<^verbatim>\<open>for x in obj\<close>: a list yields its elements, a dict its keys, a str its characters;
  nothing else is iterable.
\<close>

fun py_iter :: "json \<Rightarrow> py_error + json list" where
  "py_iter (JList xs) = Inr xs"
| "py_iter (JObj kvs) = Inr (map (\<lambda>kv. JStr (fst kv)) kvs)"
| "py_iter (JStr s) = Inr (map (\<lambda>c. JStr [c]) s)"
| "py_iter _ = Inl TypeError"

text \<open>\<^verbatim>\<open>s.replace(" ", "_")\<close> on a str.\<close>

definition replace_spaces :: "string \<Rightarrow> string" where
  "replace_spaces s = map (\<lambda>c. if c = CHR '' '' then CHR ''_'' else c) s"

text \<open>\<^verbatim>\<open>str(n)\<close> for an int: its decimal digits, with a minus sign when negative.\<close>

fun digits :: "nat \<Rightarrow> string" where
  "digits n = (if n < 10 then [char_of (48 + n)] else digits (n div 10) @ [char_of (48 + n mod 10)])"

definition str :: "int \<Rightarrow> string" where
  "str i = (if i < 0 then CHR ''-'' # digits (nat (- i)) else digits (nat i))"

section \<open>cleanhtml\<close>

text \<open>
  \<^verbatim>\<open>cleanr = re.compile(r"<.*?>")\<close> and \<^verbatim>\<open>re.sub(cleanr, "", raw_html)\<close>. The pattern
  is compiled without flags, so \<^verbatim>\<open>.\<close> matches every character but the newline. A match
  starting at a \<^verbatim>\<open><\<close> takes as few characters as it can up to a \<^verbatim>\<open>>\<close>: it ends at the
  first \<^verbatim>\<open>>\<close> after the \<^verbatim>\<open><\<close>, and there is none when a newline comes before that \<^verbatim>\<open>>\<close>
  or the string ends. \<open>tag_end cs\<close> is what follows the match when the text after the
  \<^verbatim>\<open><\<close> is \<open>cs\<close>.
\<close>

fun tag_end :: "string \<Rightarrow> string option" where
  "tag_end [] = None"
| "tag_end (c # cs) =
     (if c = CHR ''>'' then Some cs
      else if c = CHR 0x0A then None
      else tag_end cs)"

lemma tag_end_length: "tag_end cs = Some rest \<Longrightarrow> length rest < length cs"
  by (induction cs) (auto split: if_splits)

text \<open>
  \<^verbatim>\<open>re.sub\<close> scans from the left: at each position it removes the match that starts
  there and goes on after it, or keeps the character and moves one step.
\<close>

function cleanhtml :: "string \<Rightarrow> string" where
  "cleanhtml [] = []"
| "cleanhtml (c # cs) =
     (if c = CHR ''<'' then
        (case tag_end cs of
           Some rest \<Rightarrow> cleanhtml rest
         | None \<Rightarrow> c # cleanhtml cs)
      else c # cleanhtml cs)"
  by pat_completeness auto
termination
  by (relation "measure length") (auto dest: tag_end_length)

section \<open>search_title\<close>

text \<open>
  The fields read from a search response:
  \<^verbatim>\<open>json_data["query"]["searchinfo"]["totalhits"]\<close>,
  \<^verbatim>\<open>json_data["query"]["searchinfo"]["suggestion"]\<close> and \<^verbatim>\<open>json_data["query"]["search"]\<close>.
  Each subscript can raise.
\<close>

definition searchinfo_field :: "json \<Rightarrow> string \<Rightarrow> py_error + json" where
  "searchinfo_field json_data k =
     (case getitem json_data ''query'' of
        Inl e \<Rightarrow> Inl e
      | Inr q \<Rightarrow>
          (case getitem q ''searchinfo'' of
             Inl e \<Rightarrow> Inl e
           | Inr si \<Rightarrow> getitem si k))"

definition search_field :: "json \<Rightarrow> py_error + json" where
  "search_field json_data =
     (case getitem json_data ''query'' of
        Inl e \<Rightarrow> Inl e
      | Inr q \<Rightarrow> getitem q ''search'')"

text \<open>
  \<^verbatim>\<open>cleanhtml(page["snippet"])\<close> on a JSON value: \<^verbatim>\<open>re.sub\<close> raises \<^verbatim>\<open>TypeError\<close> on
  anything but a str.
\<close>

fun cleanhtml_value :: "json \<Rightarrow> py_error + json" where
  "cleanhtml_value (JStr s) = Inr (JStr (cleanhtml s))"
| "cleanhtml_value _ = Inl TypeError"

text \<open>
  The body of the \<^verbatim>\<open>for page in ...\<close> loop:
  \<^verbatim>\<open>page["snippet"] = cleanhtml(page["snippet"])\<close>; the page is then appended.
\<close>

definition clean_page :: "json \<Rightarrow> py_error + json" where
  "clean_page page =
     (case getitem page ''snippet'' of
        Inl e \<Rightarrow> Inl e
      | Inr s \<Rightarrow>
          (case cleanhtml_value s of
             Inl e \<Rightarrow> Inl e
           | Inr c \<Rightarrow> setitem page ''snippet'' c))"

text \<open>The loop itself, \<open>suggestions\<close> being the list built so far.\<close>

fun clean_pages :: "json list \<Rightarrow> json list \<Rightarrow> py_error + json list" where
  "clean_pages [] suggestions = Inr suggestions"
| "clean_pages (page # pages) suggestions =
     (case clean_page page of
        Inl e \<Rightarrow> Inl e
      | Inr page' \<Rightarrow> clean_pages pages (suggestions @ [page']))"

text \<open>
  \<open>search_title title_guess srlimit script\<close> gives the requests sent and how the call
  ends. The value returned is \<open>None\<close> for Python's \<^verbatim>\<open>None\<close> and \<open>Some\<close> of the list
  otherwise. \<open>title_guess\<close> is a JSON value because the recursive call passes on the
  \<^verbatim>\<open>suggestion\<close> field as it is; \<^verbatim>\<open>.replace\<close> exists on a str only. The recursive call
  sits inside the \<^verbatim>\<open>try\<close>, so a \<^verbatim>\<open>KeyError\<close> that escapes it is caught by the same
  \<^verbatim>\<open>except KeyError\<close> as a missing \<^verbatim>\<open>suggestion\<close>. The interpreter's bound on nested
  calls (\<^verbatim>\<open>RecursionError\<close>, at about a thousand frames by default) is not part of the
  model: the function is the program as long as the retries nest less deeply than that.
\<close>

fun search_title :: "json \<Rightarrow> int \<Rightarrow> http_result list \<Rightarrow> event list \<times> json list option outcome" where
  "search_title title_guess srlimit script =
     (case title_guess of
        JStr s \<Rightarrow>
          (let request = SearchRequest (str srlimit) (replace_spaces s) in
           case script of
             [] \<Rightarrow> ([request], Blocked)
           | Fault # rest \<Rightarrow> ([request], Raise RequestFault)
           | Body json_data # rest \<Rightarrow>
               (case searchinfo_field json_data ''totalhits'' of
                  Inl e \<Rightarrow> ([request], Raise e)
                | Inr totalhits \<Rightarrow>
                    if py_eq0 totalhits then
                      (case searchinfo_field json_data ''suggestion'' of
                         Inl e \<Rightarrow> ([request], if e = KeyError then Return None else Raise e)
                       | Inr new_guess \<Rightarrow>
                           (case search_title new_guess 5 rest of
                              (evs, out) \<Rightarrow>
                                (request # evs, if out = Raise KeyError then Return None else out)))
                    else
                      (case search_field json_data of
                         Inl e \<Rightarrow> ([request], Raise e)
                       | Inr hits \<Rightarrow>
                           (case py_iter hits of
                              Inl e \<Rightarrow> ([request], Raise e)
                            | Inr pages \<Rightarrow>
                                (case clean_pages pages [] of
                                   Inl e \<Rightarrow> ([request], Raise e)
                                 | Inr suggestions \<Rightarrow> ([request], Return (Some suggestions)))))))
      | _ \<Rightarrow> ([], Raise AttributeError))"

text \<open>
  The one equation of \<open>search_title\<close> calls itself on its right-hand side; it is
  unfolded by hand, one case of the script at a time.
\<close>

declare search_title.simps [simp del]

text \<open>
  The responses on which \<^verbatim>\<open>search_title\<close> calls itself: \<^verbatim>\<open>totalhits == 0\<close> holds and
  the \<^verbatim>\<open>suggestion\<close> field is there.
\<close>

definition suggests_retry :: "http_result \<Rightarrow> bool" where
  "suggests_retry r =
     (case r of
        Fault \<Rightarrow> False
      | Body json_data \<Rightarrow>
          (case searchinfo_field json_data ''totalhits'' of
             Inl e \<Rightarrow> False
           | Inr totalhits \<Rightarrow>
               py_eq0 totalhits \<and>
               (case searchinfo_field json_data ''suggestion'' of
                  Inl e \<Rightarrow> False
                | Inr new_guess \<Rightarrow> True)))"

section \<open>get_links\<close>

text \<open>
  \<^verbatim>\<open>json_data["query"]["pages"].popitem()\<close> followed by \<^verbatim>\<open>page[1]\<close>: \<^verbatim>\<open>popitem\<close> exists on
  a dict only, raises \<^verbatim>\<open>KeyError\<close> on an empty one and takes the item inserted last.
\<close>

fun popitem_value :: "json \<Rightarrow> py_error + json" where
  "popitem_value (JObj kvs) = (if kvs = [] then Inl KeyError else Inr (snd (last kvs)))"
| "popitem_value _ = Inl AttributeError"

definition pages_popitem :: "json \<Rightarrow> py_error + json" where
  "pages_popitem json_data =
     (case getitem json_data ''query'' of
        Inl e \<Rightarrow> Inl e
      | Inr q \<Rightarrow>
          (case getitem q ''pages'' of
             Inl e \<Rightarrow> Inl e
           | Inr pages \<Rightarrow> popitem_value pages))"

text \<open>\<^verbatim>\<open>json_data["continue"]["plcontinue"]\<close>.\<close>

definition continue_field :: "json \<Rightarrow> py_error + json" where
  "continue_field json_data =
     (case getitem json_data ''continue'' of
        Inl e \<Rightarrow> Inl e
      | Inr c \<Rightarrow> getitem c ''plcontinue'')"

text \<open>
  The \<^verbatim>\<open>for link in links\<close> loop over the accumulator \<open>pl\<close>. It ends in one of three
  ways: the \<^verbatim>\<open>return pl\<close> inside it, its normal end, or an exception.
  \<^verbatim>\<open>len(pl) == num_links\<close> is false when \<open>num_links\<close> is \<^verbatim>\<open>None\<close>.
\<close>

datatype for_exit = ReturnEarly "json list" | Completed "json list" | ForRaise py_error

fun collect_links :: "json list \<Rightarrow> int option \<Rightarrow> json list \<Rightarrow> for_exit" where
  "collect_links [] num_links pl = Completed pl"
| "collect_links (link # links) num_links pl =
     (case getitem link ''ns'' of
        Inl e \<Rightarrow> ForRaise e
      | Inr ns \<Rightarrow>
          if py_eq0 ns then
            (case getitem link ''title'' of
               Inl e \<Rightarrow> ForRaise e
             | Inr title \<Rightarrow>
                 (let pl' = pl @ [title] in
                  if Some (int (length pl')) = num_links then ReturnEarly pl'
                  else collect_links links num_links pl'))
          else collect_links links num_links pl)"

text \<open>
  The \<^verbatim>\<open>while True\<close> loop, one response of the script per iteration. \<open>plcontinue\<close> is
  \<open>JNull\<close> for Python's \<^verbatim>\<open>None\<close>; the parameter is sent only when it
  \<^verbatim>\<open>is not None\<close>. An exception loses the accumulator; the two \<^verbatim>\<open>except KeyError\<close>
  cover one subscript expression each. (When \<open>num_links\<close> is \<^verbatim>\<open>None\<close> the \<^verbatim>\<open>%i\<close> of the
  last logging call cannot be formatted; \<^verbatim>\<open>logging\<close> reports that itself and the call
  goes on to its \<^verbatim>\<open>return pl\<close>.)
\<close>

fun get_links_loop ::
  "string \<Rightarrow> int option \<Rightarrow> int \<Rightarrow> json \<Rightarrow> json list \<Rightarrow> http_result list \<Rightarrow> event list \<times> json list outcome" where
  "get_links_loop page_name num_links pllimit plcontinue pl [] =
     ([LinksRequest (replace_spaces page_name) pllimit (if plcontinue = JNull then None else Some plcontinue)],
      Blocked)"
| "get_links_loop page_name num_links pllimit plcontinue pl (Fault # script) =
     ([LinksRequest (replace_spaces page_name) pllimit (if plcontinue = JNull then None else Some plcontinue)],
      Raise RequestFault)"
| "get_links_loop page_name num_links pllimit plcontinue pl (Body json_data # script) =
     (let request = LinksRequest (replace_spaces page_name) pllimit
                      (if plcontinue = JNull then None else Some plcontinue) in
      case pages_popitem json_data of
        Inl e \<Rightarrow> ([request], Raise e)
      | Inr page \<Rightarrow>
          (case getitem page ''links'' of
             Inl e \<Rightarrow>
               if e = KeyError then ([request, LogErrorNoLinks page_name], Return pl)
               else ([request], Raise e)
           | Inr links \<Rightarrow>
               (case py_iter links of
                  Inl e \<Rightarrow> ([request], Raise e)
                | Inr link_list \<Rightarrow>
                    (case collect_links link_list num_links pl of
                       ForRaise e \<Rightarrow> ([request], Raise e)
                     | ReturnEarly pl' \<Rightarrow> ([request], Return pl')
                     | Completed pl' \<Rightarrow>
                         (case continue_field json_data of
                            Inl e \<Rightarrow>
                              if e = KeyError then ([request, LogInfoFewer page_name num_links], Return pl')
                              else ([request], Raise e)
                          | Inr plcontinue' \<Rightarrow>
                              (case get_links_loop page_name num_links pllimit plcontinue' pl' script of
                                 (evs, out) \<Rightarrow>
                                   (request # LogInfoContinue page_name plcontinue' # evs, out)))))))"

text \<open>
  \<^verbatim>\<open>get_links(page_name, num_links=None)\<close>: \<open>pllimit\<close> is \<open>num_links\<close> unless that is
  \<^verbatim>\<open>None\<close> or above 500.
\<close>

definition get_links :: "string \<Rightarrow> int option \<Rightarrow> http_result list \<Rightarrow> event list \<times> json list outcome" where
  "get_links page_name num_links script =
     (let pllimit = (case num_links of
                       None \<Rightarrow> 500
                     | Some n \<Rightarrow> if n > 500 then 500 else n)
      in get_links_loop page_name num_links pllimit JNull [] script)"

text \<open>
  The link entries a response hands to the \<^verbatim>\<open>for link in links\<close> loop (none when the
  loop is not reached), the test \<^verbatim>\<open>link["ns"] == 0\<close> and the value \<^verbatim>\<open>link["title"]\<close>, as
  functions of the response and of the entry. They serve to say which entries the
  result of \<^verbatim>\<open>get_links\<close> is made of.
\<close>

definition response_links :: "http_result \<Rightarrow> json list" where
  "response_links r =
     (case r of
        Fault \<Rightarrow> []
      | Body json_data \<Rightarrow>
          (case pages_popitem json_data of
             Inl e \<Rightarrow> []
           | Inr page \<Rightarrow>
               (case getitem page ''links'' of
                  Inl e \<Rightarrow> []
                | Inr links \<Rightarrow>
                    (case py_iter links of
                       Inl e \<Rightarrow> []
                     | Inr link_list \<Rightarrow> link_list))))"

definition is_ns0 :: "json \<Rightarrow> bool" where
  "is_ns0 link = (case getitem link ''ns'' of Inl e \<Rightarrow> False | Inr ns \<Rightarrow> py_eq0 ns)"

definition link_title :: "json \<Rightarrow> json" where
  "link_title link = (case getitem link ''title'' of Inl e \<Rightarrow> JNull | Inr title \<Rightarrow> title)"

text \<open>
  An entry of another namespace (\<^verbatim>\<open>link["ns"]\<close> is there and \<^verbatim>\<open>link["ns"] == 0\<close> is
  false); an entry the loop can handle without raising (it has its \<^verbatim>\<open>ns\<close>, and its
  \<^verbatim>\<open>title\<close> when the namespace is 0); and the events that are requests.
\<close>

definition other_namespace :: "json \<Rightarrow> bool" where
  "other_namespace entry = (case getitem entry ''ns'' of Inl e \<Rightarrow> False | Inr ns \<Rightarrow> \<not> py_eq0 ns)"

definition link_ok :: "json \<Rightarrow> bool" where
  "link_ok entry =
     (case getitem entry ''ns'' of
        Inl e \<Rightarrow> False
      | Inr ns \<Rightarrow>
          if py_eq0 ns then (case getitem entry ''title'' of Inl e \<Rightarrow> False | Inr title \<Rightarrow> True)
          else True)"

fun is_request :: "event \<Rightarrow> bool" where
  "is_request (SearchRequest srlimit srsearch) = True"
| "is_request (LinksRequest titles pllimit plcontinue) = True"
| "is_request _ = False"

section \<open>Responses in the shape of the API\<close>

text \<open>
  A search response: \<^verbatim>\<open>{"query": {"searchinfo": {"totalhits": ..., "suggestion": ...},
  "search": ...}}\<close>, the \<^verbatim>\<open>suggestion\<close> field being optional; one hit of its \<^verbatim>\<open>search\<close>
  list; and the answer the API gives in place of a result,
  \<^verbatim>\<open>{"error": {"code": ...}}\<close>, which has no \<^verbatim>\<open>query\<close> field.
\<close>

definition search_response :: "json \<Rightarrow> json option \<Rightarrow> json \<Rightarrow> http_result" where
  "search_response totalhits suggestion hits =
     Body (JObj [(''query'',
       JObj [(''searchinfo'',
               JObj ((''totalhits'', totalhits) #
                     (case suggestion of None \<Rightarrow> [] | Some g \<Rightarrow> [(''suggestion'', g)]))),
             (''search'', hits)])])"

definition hit :: "string \<Rightarrow> string \<Rightarrow> json" where
  "hit title snippet = JObj [(''ns'', JInt 0), (''title'', JStr title), (''snippet'', JStr snippet)]"

definition error_response :: http_result where
  "error_response = Body (JObj [(''error'', JObj [(''code'', JStr ''internal_api_error'')])])"

text \<open>
  A links response: \<^verbatim>\<open>{"query": {"pages": {"909036": {"pageid": 909036, "links": ...}}},
  "continue": {"plcontinue": ...}}\<close>, the \<^verbatim>\<open>links\<close> field and the \<^verbatim>\<open>continue\<close> field being
  optional; and one entry of its \<^verbatim>\<open>links\<close> list.
\<close>

definition link :: "int \<Rightarrow> string \<Rightarrow> json" where
  "link ns title = JObj [(''ns'', JInt ns), (''title'', JStr title)]"

definition links_response :: "json list option \<Rightarrow> json option \<Rightarrow> http_result" where
  "links_response links plcontinue =
     Body (JObj ((''query'',
             JObj [(''pages'',
               JObj [(''909036'',
                 JObj ((''pageid'', JInt 909036) #
                       (case links of None \<Rightarrow> [] | Some ls \<Rightarrow> [(''links'', JList ls)])))])]) #
           (case plcontinue of
              None \<Rightarrow> []
            | Some c \<Rightarrow> [(''continue'', JObj [(''plcontinue'', c)])])))"

section \<open>The wording of the specification, for comparison\<close>

text \<open>
  The specification describes \<^verbatim>\<open>cleanhtml\<close> as removing the shortest run from each
  \<^verbatim>\<open><\<close> to the next \<^verbatim>\<open>>\<close>. \<open>strip_to_next_gt\<close> does that, whatever lies in between.
\<close>

fun next_gt :: "string \<Rightarrow> string option" where
  "next_gt [] = None"
| "next_gt (c # cs) = (if c = CHR ''>'' then Some cs else next_gt cs)"

lemma next_gt_length: "next_gt cs = Some rest \<Longrightarrow> length rest < length cs"
  by (induction cs) (auto split: if_splits)

function strip_to_next_gt :: "string \<Rightarrow> string" where
  "strip_to_next_gt [] = []"
| "strip_to_next_gt (c # cs) =
     (if c = CHR ''<'' then
        (case next_gt cs of
           Some rest \<Rightarrow> strip_to_next_gt rest
         | None \<Rightarrow> c # strip_to_next_gt cs)
      else c # strip_to_next_gt cs)"
  by pat_completeness auto
termination
  by (relation "measure length") (auto dest: next_gt_length)

section \<open>Properties of cleanhtml\<close>

lemma tag_end_append:
  "CHR ''>'' \<notin> set b \<Longrightarrow> CHR 0x0A \<notin> set b \<Longrightarrow> tag_end (b @ CHR ''>'' # r) = Some r"
  by (induction b) auto

lemma tag_end_SomeD:
  "tag_end cs = Some r \<Longrightarrow> \<exists>b. cs = b @ CHR ''>'' # r \<and> CHR ''>'' \<notin> set b \<and> CHR 0x0A \<notin> set b"
proof (induction cs)
  case Nil
  then show ?case by simp
next
  case (Cons c cs)
  show ?case
  proof (cases "c = CHR ''>''")
    case True
    with Cons.prems have "c # cs = [] @ CHR ''>'' # r" by simp
    then show ?thesis by (metis empty_iff list.set(1))
  next
    case False
    with Cons.prems have nl: "c \<noteq> CHR 0x0A" and te: "tag_end cs = Some r"
      by (auto split: if_splits)
    from Cons.IH [OF te] obtain b where
      b: "cs = b @ CHR ''>'' # r" "CHR ''>'' \<notin> set b" "CHR 0x0A \<notin> set b" by blast
    with False nl have "c # cs = (c # b) @ CHR ''>'' # r \<and> CHR ''>'' \<notin> set (c # b) \<and> CHR 0x0A \<notin> set (c # b)"
      by simp
    then show ?thesis by blast
  qed
qed

lemma tag_end_None_iff:
  "tag_end cs = None \<longleftrightarrow> CHR ''>'' \<notin> set (takeWhile (\<lambda>c. c \<noteq> CHR 0x0A) cs)"
  by (induction cs) auto

lemma tag_end_suffix: "tag_end cs = Some r \<Longrightarrow> suffix r cs"
  by (auto dest!: tag_end_SomeD simp: suffix_def)

lemma subseq_cleanhtml: "subseq (cleanhtml s) s"
proof (induction s rule: cleanhtml.induct)
  case 1
  then show ?case by simp
next
  case (2 c cs)
  show ?case
  proof (cases "c = CHR ''<''")
    case False
    with 2 show ?thesis by simp
  next
    case True
    show ?thesis
    proof (cases "tag_end cs")
      case None
      with True 2 show ?thesis by simp
    next
      case (Some rest)
      with True 2 have "subseq (cleanhtml rest) rest" by simp
      moreover have "subseq rest (c # cs)"
      proof -
        from Some have "suffix rest cs" by (rule tag_end_suffix)
        then have "suffix rest (c # cs)" by (rule suffix_ConsI)
        then show ?thesis by (rule suffix_imp_subseq)
      qed
      ultimately have "subseq (cleanhtml rest) (c # cs)" by (rule subseq_order.order_trans)
      with True Some show ?thesis by simp
    qed
  qed
qed

lemma cleanhtml_no_match:
  "\<forall>i<length s. s ! i = CHR ''<'' \<longrightarrow> CHR ''>'' \<notin> set (takeWhile (\<lambda>c. c \<noteq> CHR 0x0A) (drop (Suc i) s))
   \<Longrightarrow> cleanhtml s = s"
proof (induction s)
  case Nil
  then show ?case by simp
next
  case (Cons c cs)
  have tl: "\<forall>i<length cs. cs ! i = CHR ''<'' \<longrightarrow> CHR ''>'' \<notin> set (takeWhile (\<lambda>c. c \<noteq> CHR 0x0A) (drop (Suc i) cs))"
  proof (intro allI impI)
    fix i assume "i < length cs" "cs ! i = CHR ''<''"
    with Cons.prems [rule_format, of "Suc i"]
    show "CHR ''>'' \<notin> set (takeWhile (\<lambda>c. c \<noteq> CHR 0x0A) (drop (Suc i) cs))" by simp
  qed
  have hd: "c = CHR ''<'' \<Longrightarrow> tag_end cs = None"
    using Cons.prems [rule_format, of 0] by (simp add: tag_end_None_iff)
  show ?case using Cons.IH [OF tl] hd by (cases "c = CHR ''<''") simp_all
qed

lemma next_gt_no_newline:
  "CHR 0x0A \<notin> set cs \<Longrightarrow> tag_end cs = next_gt cs"
  by (induction cs) auto

lemma next_gt_set: "next_gt cs = Some r \<Longrightarrow> set r \<subseteq> set cs"
  by (induction cs) (auto split: if_splits)

lemma cleanhtml_one_line: "CHR 0x0A \<notin> set s \<Longrightarrow> cleanhtml s = strip_to_next_gt s"
proof (induction s rule: cleanhtml.induct)
  case 1
  then show ?case by simp
next
  case (2 c cs)
  then have nl: "CHR 0x0A \<notin> set cs" by simp
  show ?case
  proof (cases "c = CHR ''<''")
    case False
    with 2 show ?thesis by simp
  next
    case True
    show ?thesis
    proof (cases "tag_end cs")
      case None
      with True 2 nl show ?thesis by (simp add: next_gt_no_newline [symmetric])
    next
      case (Some rest)
      with nl have "next_gt cs = Some rest" by (simp add: next_gt_no_newline [symmetric])
      then have "CHR 0x0A \<notin> set rest" using nl next_gt_set by blast
      with True Some 2 nl show ?thesis by (simp add: next_gt_no_newline [symmetric])
    qed
  qed
qed

text \<open>
  What \<^verbatim>\<open>cleanhtml\<close> computes. It is a total function on strings, and these equations
  fix its value on every input: a \<^verbatim>\<open><\<close> followed, with no newline and no other \<^verbatim>\<open>>\<close>
  in between, by a \<^verbatim>\<open>>\<close> is removed together with everything up to that \<^verbatim>\<open>>\<close>; a \<^verbatim>\<open><\<close>
  with no \<^verbatim>\<open>>\<close> after it on the same line is kept; every other character is kept.
  What is left is a subsequence of the input (the remaining text, in order). An input
  where no \<^verbatim>\<open><\<close> has a \<^verbatim>\<open>>\<close> after it on the same line comes back unchanged. On an
  input without newlines the result is the one the specification describes:
  everything from each \<^verbatim>\<open><\<close> to the next \<^verbatim>\<open>>\<close> is removed.
\<close>

lemma cleanhtml_removes_tags:
  "(\<forall>b r. CHR ''>'' \<notin> set b \<and> CHR 0x0A \<notin> set b \<longrightarrow>
       cleanhtml (CHR ''<'' # b @ CHR ''>'' # r) = cleanhtml r)
   \<and> (\<forall>cs. CHR ''>'' \<notin> set (takeWhile (\<lambda>c. c \<noteq> CHR 0x0A) cs) \<longrightarrow>
       cleanhtml (CHR ''<'' # cs) = CHR ''<'' # cleanhtml cs)
   \<and> (\<forall>c cs. c \<noteq> CHR ''<'' \<longrightarrow> cleanhtml (c # cs) = c # cleanhtml cs)
   \<and> (\<forall>s. subseq (cleanhtml s) s)
   \<and> (\<forall>s. (\<forall>i<length s. s ! i = CHR ''<'' \<longrightarrow>
              CHR ''>'' \<notin> set (takeWhile (\<lambda>c. c \<noteq> CHR 0x0A) (drop (Suc i) s))) \<longrightarrow>
       cleanhtml s = s)
   \<and> (\<forall>s. CHR 0x0A \<notin> set s \<longrightarrow> cleanhtml s = strip_to_next_gt s)"
proof (intro conjI allI impI)
  fix b r assume "CHR ''>'' \<notin> set b \<and> CHR 0x0A \<notin> set b"
  then show "cleanhtml (CHR ''<'' # b @ CHR ''>'' # r) = cleanhtml r"
    by (simp add: tag_end_append)
next
  fix cs assume "CHR ''>'' \<notin> set (takeWhile (\<lambda>c. c \<noteq> CHR 0x0A) cs)"
  then have "tag_end cs = None" by (simp add: tag_end_None_iff)
  then show "cleanhtml (CHR ''<'' # cs) = CHR ''<'' # cleanhtml cs" by simp
next
  fix c :: char and cs assume "c \<noteq> CHR ''<''"
  then show "cleanhtml (c # cs) = c # cleanhtml cs" by simp
next
  fix s show "subseq (cleanhtml s) s" by (rule subseq_cleanhtml)
next
  fix s
  assume "\<forall>i<length s. s ! i = CHR ''<'' \<longrightarrow>
              CHR ''>'' \<notin> set (takeWhile (\<lambda>c. c \<noteq> CHR 0x0A) (drop (Suc i) s))"
  then show "cleanhtml s = s" by (rule cleanhtml_no_match)
next
  fix s assume "CHR 0x0A \<notin> set s"
  then show "cleanhtml s = strip_to_next_gt s" by (rule cleanhtml_one_line)
qed

lemma cleanhtml_removes_tags_examples:
  "cleanhtml ''<b>x'' = cleanhtml ''x''
   \<and> cleanhtml ''<a'' = CHR ''<'' # cleanhtml ''a''
   \<and> cleanhtml ''a<b>'' = CHR ''a'' # cleanhtml ''<b>''
   \<and> cleanhtml ''a>b<'' = ''a>b<''
   \<and> cleanhtml ''a<b>c'' = strip_to_next_gt ''a<b>c''"
proof -
  note T = cleanhtml_removes_tags
  have 1: "cleanhtml ''<b>x'' = cleanhtml ''x''"
    using T [THEN conjunct1, rule_format, of "''b''" "''x''"] by simp
  have 2: "cleanhtml ''<a'' = CHR ''<'' # cleanhtml ''a''"
    using T [THEN conjunct2, THEN conjunct1, rule_format, of "''a''"] by simp
  have 3: "cleanhtml ''a<b>'' = CHR ''a'' # cleanhtml ''<b>''"
    using T [THEN conjunct2, THEN conjunct2, THEN conjunct1, rule_format, of "CHR ''a''" "''<b>''"] by simp
  have "\<forall>i<length ''a>b<''. ''a>b<'' ! i = CHR ''<'' \<longrightarrow>
          CHR ''>'' \<notin> set (takeWhile (\<lambda>c. c \<noteq> CHR 0x0A) (drop (Suc i) ''a>b<''))"
    by (simp add: less_Suc_eq nth_Cons')
  then have 4: "cleanhtml ''a>b<'' = ''a>b<''"
    using T [THEN conjunct2, THEN conjunct2, THEN conjunct2, THEN conjunct2, THEN conjunct1, rule_format, of "''a>b<''"]
    by blast
  have 5: "cleanhtml ''a<b>c'' = strip_to_next_gt ''a<b>c''"
    using T [THEN conjunct2, THEN conjunct2, THEN conjunct2, THEN conjunct2, THEN conjunct2, rule_format, of "''a<b>c''"]
    by simp
  from 1 2 3 4 5 show ?thesis by blast
qed

text \<open>
  Claim C4. The docstring of \<^verbatim>\<open>cleanhtml\<close> promises a "string with any html tags replaced
  with ''", and the claim has every run from a \<^verbatim>\<open><\<close> to the next \<^verbatim>\<open>>\<close> removed. A tag
  may hold a newline, and there the code falls short: the pattern is compiled without
  \<^verbatim>\<open>re.DOTALL\<close>, its \<^verbatim>\<open>.\<close> stops at the newline, and on \<^verbatim>\<open>"<a\nb>x"\<close> nothing is removed,
  where removing from the \<^verbatim>\<open><\<close> to the next \<^verbatim>\<open>>\<close> leaves \<^verbatim>\<open>"x"\<close>.
\<close>

theorem cleanhtml_tag_across_newline_kept:
  "cleanhtml [CHR ''<'', CHR ''a'', CHR 0x0A, CHR ''b'', CHR ''>'', CHR ''x'']
     = [CHR ''<'', CHR ''a'', CHR 0x0A, CHR ''b'', CHR ''>'', CHR ''x'']
   \<and> strip_to_next_gt [CHR ''<'', CHR ''a'', CHR 0x0A, CHR ''b'', CHR ''>'', CHR ''x''] = ''x''"
  by simp


section \<open>Properties of search_title\<close>

subsection \<open>The equation of the function, case by case\<close>

lemma search_title_not_str:
  "(\<forall>s. title_guess \<noteq> JStr s) \<Longrightarrow> search_title title_guess srlimit script = ([], Raise AttributeError)"
  by (subst search_title.simps) (simp split: json.splits)

lemma search_title_Nil:
  "search_title (JStr s) srlimit [] = ([SearchRequest (str srlimit) (replace_spaces s)], Blocked)"
  by (subst search_title.simps) simp

lemma search_title_Fault:
  "search_title (JStr s) srlimit (Fault # rest) =
     ([SearchRequest (str srlimit) (replace_spaces s)], Raise RequestFault)"
  by (subst search_title.simps) simp

lemma search_title_totalhits_raises:
  "searchinfo_field json_data ''totalhits'' = Inl e \<Longrightarrow>
   search_title (JStr s) srlimit (Body json_data # rest) =
     ([SearchRequest (str srlimit) (replace_spaces s)], Raise e)"
  by (subst search_title.simps) simp

lemma search_title_no_suggestion:
  "searchinfo_field json_data ''totalhits'' = Inr totalhits \<Longrightarrow> py_eq0 totalhits \<Longrightarrow>
   searchinfo_field json_data ''suggestion'' = Inl e \<Longrightarrow>
   search_title (JStr s) srlimit (Body json_data # rest) =
     ([SearchRequest (str srlimit) (replace_spaces s)], if e = KeyError then Return None else Raise e)"
  by (subst search_title.simps) simp

lemma search_title_retry:
  "searchinfo_field json_data ''totalhits'' = Inr totalhits \<Longrightarrow> py_eq0 totalhits \<Longrightarrow>
   searchinfo_field json_data ''suggestion'' = Inr new_guess \<Longrightarrow>
   search_title (JStr s) srlimit (Body json_data # rest) =
     (SearchRequest (str srlimit) (replace_spaces s) # fst (search_title new_guess 5 rest),
      if snd (search_title new_guess 5 rest) = Raise KeyError then Return None
      else snd (search_title new_guess 5 rest))"
  by (subst search_title.simps) (simp add: case_prod_beta)

lemma search_title_hits:
  "searchinfo_field json_data ''totalhits'' = Inr totalhits \<Longrightarrow> \<not> py_eq0 totalhits \<Longrightarrow>
   search_title (JStr s) srlimit (Body json_data # rest) =
     ([SearchRequest (str srlimit) (replace_spaces s)],
      case search_field json_data of
        Inl e \<Rightarrow> Raise e
      | Inr hits \<Rightarrow>
          (case py_iter hits of
             Inl e \<Rightarrow> Raise e
           | Inr pages \<Rightarrow>
               (case clean_pages pages [] of
                  Inl e \<Rightarrow> Raise e
                | Inr suggestions \<Rightarrow> Return (Some suggestions))))"
  by (subst search_title.simps) (simp split: sum.splits)

lemma suggests_retry_Fault: "\<not> suggests_retry Fault"
  by (simp add: suggests_retry_def)

lemma suggests_retry_Body:
  "suggests_retry (Body json_data) \<longleftrightarrow>
     (\<exists>totalhits new_guess. searchinfo_field json_data ''totalhits'' = Inr totalhits \<and> py_eq0 totalhits
        \<and> searchinfo_field json_data ''suggestion'' = Inr new_guess)"
  by (auto simp: suggests_retry_def split: sum.splits)

lemma search_title_no_retry:
  "\<not> suggests_retry r \<Longrightarrow>
   length (fst (search_title title_guess srlimit (r # rest))) \<le> 1
   \<and> snd (search_title title_guess srlimit (r # rest)) \<noteq> Blocked"
proof (cases title_guess)
  case (JStr s)
  assume nr: "\<not> suggests_retry r"
  show ?thesis
  proof (cases r)
    case Fault
    with JStr show ?thesis by (simp add: search_title_Fault)
  next
    case (Body json_data)
    show ?thesis
    proof (cases "searchinfo_field json_data ''totalhits''")
      case (Inl e)
      with JStr Body show ?thesis by (simp add: search_title_totalhits_raises)
    next
      case (Inr totalhits)
      show ?thesis
      proof (cases "py_eq0 totalhits")
        case False
        with JStr Body Inr show ?thesis
          by (simp add: search_title_hits split: sum.splits)
      next
        case True
        with nr Body Inr obtain e where "searchinfo_field json_data ''suggestion'' = Inl e"
          by (cases "searchinfo_field json_data ''suggestion''") (auto simp: suggests_retry_Body)
        with JStr Body Inr True show ?thesis by (simp add: search_title_no_suggestion)
      qed
    qed
  qed
qed (simp_all add: search_title_not_str)

lemma search_title_requests_le:
  "length (fst (search_title title_guess srlimit script)) \<le> Suc (length script)"
proof (induction script arbitrary: title_guess srlimit)
  case Nil
  show ?case by (cases title_guess) (simp_all add: search_title_not_str search_title_Nil)
next
  case (Cons r rest)
  show ?case
  proof (cases "suggests_retry r")
    case False
    from search_title_no_retry [OF False, of title_guess srlimit rest] show ?thesis by simp
  next
    case True
    then obtain json_data totalhits new_guess where
      r: "r = Body json_data" "searchinfo_field json_data ''totalhits'' = Inr totalhits" "py_eq0 totalhits"
         "searchinfo_field json_data ''suggestion'' = Inr new_guess"
      by (cases r) (auto simp: suggests_retry_Body suggests_retry_Fault simp del: py_eq0.simps)
    show ?thesis
    proof (cases title_guess)
      case (JStr s)
      with r Cons.IH [of new_guess 5] show ?thesis by (simp add: search_title_retry)
    qed (simp_all add: search_title_not_str)
  qed
qed

lemma search_response_fields:
  assumes "search_response totalhits suggestion hits = Body json_data"
  shows "searchinfo_field json_data ''totalhits'' = Inr totalhits"
    and "searchinfo_field json_data ''suggestion'' =
           (case suggestion of None \<Rightarrow> Inl KeyError | Some g \<Rightarrow> Inr g)"
    and "search_field json_data = Inr hits"
  using assms
  by (auto simp: search_response_def searchinfo_field_def search_field_def split: option.splits)

lemma search_response_Body: "\<exists>json_data. search_response totalhits suggestion hits = Body json_data"
  by (simp add: search_response_def)

lemma suggests_retry_search_response:
  "suggests_retry (search_response (JInt 0) (Some g) hits)"
proof -
  obtain json_data where j: "search_response (JInt 0) (Some g) hits = Body json_data"
    using search_response_Body by blast
  from search_response_fields [OF j] show ?thesis
    unfolding j by (simp add: suggests_retry_Body)
qed

lemma search_title_retry_replicate:
  assumes "searchinfo_field json_data ''totalhits'' = Inr totalhits" and "py_eq0 totalhits"
    and "searchinfo_field json_data ''suggestion'' = Inr (JStr g)"
    and "k \<le> 100"
  shows "search_title (JStr s) srlimit (replicate k (Body json_data)) =
     (SearchRequest (str srlimit) (replace_spaces s) # replicate k (SearchRequest (str 5) (replace_spaces g)),
      Blocked)"
  using assms(4)
proof (induction k arbitrary: s srlimit)
  case 0
  show ?case by (simp add: search_title_Nil)
next
  case (Suc k)
  from Suc.prems have "k \<le> 100" by simp
  from Suc.IH [OF this] show ?case
    using search_title_retry [OF assms(1-3), of s srlimit "replicate k (Body json_data)"]
    by simp
qed

lemma search_title_retry_chain:
  assumes "k \<le> 100"
  shows "search_title (JStr s) srlimit (replicate k (search_response (JInt 0) (Some (JStr g)) (JList []))) =
     (SearchRequest (str srlimit) (replace_spaces s) # replicate k (SearchRequest (str 5) (replace_spaces g)),
      Blocked)"
proof -
  obtain json_data where j: "search_response (JInt 0) (Some (JStr g)) (JList []) = Body json_data"
    using search_response_Body by blast
  from search_response_fields [OF j] assms show ?thesis
    unfolding j by (intro search_title_retry_replicate [where totalhits = "JInt 0"]) simp_all
qed

lemma str_5: "str 5 = ''5''"
  by code_simp

lemma str_1: "str 1 = ''1''"
  by code_simp

text \<open>
  Claim C9. A response that is not a zero-hit response carrying a suggestion ends the
  call: when the first response is such, one request is sent; when the response to the
  retry is such, at most two requests are sent; in both cases the call has ended (it
  returned or raised). Nothing in the code bounds the depth: answered \<open>k\<close> times by a
  zero-hit response with a suggestion, the call has sent \<open>k + 1\<close> requests and is still
  waiting. That is stated for \<open>k\<close> up to 100, well inside what the interpreter lets a
  call nest; beyond its limit the program raises \<^verbatim>\<open>RecursionError\<close>, which the model
  does not have.
\<close>

theorem search_title_one_retry:
  "(\<forall>title_guess srlimit r0 rest.
      \<not> suggests_retry r0 \<longrightarrow>
        length (fst (search_title title_guess srlimit (r0 # rest))) \<le> 1
        \<and> snd (search_title title_guess srlimit (r0 # rest)) \<noteq> Blocked)
   \<and> (\<forall>title_guess srlimit r0 r1 rest.
      \<not> suggests_retry r1 \<longrightarrow>
        length (fst (search_title title_guess srlimit (r0 # r1 # rest))) \<le> 2
        \<and> snd (search_title title_guess srlimit (r0 # r1 # rest)) \<noteq> Blocked)
   \<and> (\<forall>k s g srlimit. k \<le> 100 \<longrightarrow>
        (\<forall>r \<in> set (replicate k (search_response (JInt 0) (Some (JStr g)) (JList []))). suggests_retry r)
        \<and> length (fst (search_title (JStr s) srlimit
                           (replicate k (search_response (JInt 0) (Some (JStr g)) (JList []))))) = Suc k
        \<and> snd (search_title (JStr s) srlimit
                           (replicate k (search_response (JInt 0) (Some (JStr g)) (JList [])))) = Blocked)"
proof (intro conjI allI impI ballI)
  fix title_guess srlimit r0 rest
  assume "\<not> suggests_retry r0"
  from search_title_no_retry [OF this]
  show "length (fst (search_title title_guess srlimit (r0 # rest))) \<le> 1"
    and "snd (search_title title_guess srlimit (r0 # rest)) \<noteq> Blocked" by blast+
next
  fix title_guess srlimit r0 r1 rest
  assume nr: "\<not> suggests_retry r1"
  have both: "length (fst (search_title title_guess srlimit (r0 # r1 # rest))) \<le> 2
        \<and> snd (search_title title_guess srlimit (r0 # r1 # rest)) \<noteq> Blocked"
  proof (cases "suggests_retry r0")
    case False
    from search_title_no_retry [OF False, of title_guess srlimit "r1 # rest"] show ?thesis by simp
  next
    case True
    then obtain json_data totalhits new_guess where
      r: "r0 = Body json_data" "searchinfo_field json_data ''totalhits'' = Inr totalhits" "py_eq0 totalhits"
         "searchinfo_field json_data ''suggestion'' = Inr new_guess"
      by (cases r0) (auto simp: suggests_retry_Body suggests_retry_Fault simp del: py_eq0.simps)
    show ?thesis
    proof (cases title_guess)
      case (JStr s)
      with r search_title_no_retry [OF nr, of new_guess 5 rest] show ?thesis
        by (simp add: search_title_retry)
    qed (simp_all add: search_title_not_str)
  qed
  from both show "length (fst (search_title title_guess srlimit (r0 # r1 # rest))) \<le> 2"
    and "snd (search_title title_guess srlimit (r0 # r1 # rest)) \<noteq> Blocked" by blast+
next
  fix k :: nat and s g srlimit r
  assume "r \<in> set (replicate k (search_response (JInt 0) (Some (JStr g)) (JList [])))"
  then have "r = search_response (JInt 0) (Some (JStr g)) (JList [])" by simp
  then show "suggests_retry r"
    by (simp add: suggests_retry_search_response)
next
  fix k :: nat and s g srlimit
  assume k: "k \<le> 100"
  show "length (fst (search_title (JStr s) srlimit
                           (replicate k (search_response (JInt 0) (Some (JStr g)) (JList []))))) = Suc k"
    by (simp add: search_title_retry_chain [OF k])
next
  fix k :: nat and s g srlimit
  assume k: "k \<le> 100"
  show "snd (search_title (JStr s) srlimit
                           (replicate k (search_response (JInt 0) (Some (JStr g)) (JList [])))) = Blocked"
    by (simp add: search_title_retry_chain [OF k])
qed

theorem search_title_one_retry_witness:
  "\<not> suggests_retry (search_response (JInt 2) None (JList []))
   \<and> length (fst (search_title (JStr ''elon musk'') 3 [search_response (JInt 2) None (JList [])])) \<le> 1
   \<and> snd (search_title (JStr ''elon musk'') 3 [search_response (JInt 2) None (JList [])]) \<noteq> Blocked
   \<and> length (fst (search_title (JStr ''elon muskk'') 3
         [search_response (JInt 0) (Some (JStr ''elon musk'')) (JList []),
          search_response (JInt 2) None (JList [])])) \<le> 2
   \<and> snd (search_title (JStr ''elon muskk'') 3
         [search_response (JInt 0) (Some (JStr ''elon musk'')) (JList []),
          search_response (JInt 2) None (JList [])]) \<noteq> Blocked
   \<and> suggests_retry (search_response (JInt 0) (Some (JStr ''a'')) (JList []))
   \<and> length (fst (search_title (JStr ''a'') 5
         (replicate 3 (search_response (JInt 0) (Some (JStr ''a'')) (JList []))))) = Suc 3
   \<and> snd (search_title (JStr ''a'') 5
         (replicate 3 (search_response (JInt 0) (Some (JStr ''a'')) (JList [])))) = Blocked"
proof -
  have nr: "\<not> suggests_retry (search_response (JInt 2) None (JList []))"
    by (simp add: suggests_retry_def search_response_def searchinfo_field_def)
  note T = search_title_one_retry
  from nr T [THEN conjunct1, rule_format, of "search_response (JInt 2) None (JList [])"
               "JStr ''elon musk''" 3 "[]"]
  have 1: "length (fst (search_title (JStr ''elon musk'') 3 [search_response (JInt 2) None (JList [])])) \<le> 1
           \<and> snd (search_title (JStr ''elon musk'') 3 [search_response (JInt 2) None (JList [])]) \<noteq> Blocked"
    by blast
  from nr T [THEN conjunct2, THEN conjunct1, rule_format, of "search_response (JInt 2) None (JList [])"
               "JStr ''elon muskk''" 3 "search_response (JInt 0) (Some (JStr ''elon musk'')) (JList [])" "[]"]
  have 2: "length (fst (search_title (JStr ''elon muskk'') 3
         [search_response (JInt 0) (Some (JStr ''elon musk'')) (JList []),
          search_response (JInt 2) None (JList [])])) \<le> 2
   \<and> snd (search_title (JStr ''elon muskk'') 3
         [search_response (JInt 0) (Some (JStr ''elon musk'')) (JList []),
          search_response (JInt 2) None (JList [])]) \<noteq> Blocked"
    by blast
  from T [THEN conjunct2, THEN conjunct2, rule_format, of 3 "''a''" "''a''" 5]
  have 3: "suggests_retry (search_response (JInt 0) (Some (JStr ''a'')) (JList []))
   \<and> length (fst (search_title (JStr ''a'') 5
         (replicate 3 (search_response (JInt 0) (Some (JStr ''a'')) (JList []))))) = Suc 3
   \<and> snd (search_title (JStr ''a'') 5
         (replicate 3 (search_response (JInt 0) (Some (JStr ''a'')) (JList [])))) = Blocked"
    by simp
  from nr 1 2 3 show ?thesis by blast
qed

text \<open>
  Claim C1. The retry \<^verbatim>\<open>search_title(new_guess)\<close> is inside the \<^verbatim>\<open>try\<close>, whose
  \<^verbatim>\<open>except KeyError\<close> is meant for a missing \<^verbatim>\<open>suggestion\<close>. When the response to the retry
  has no \<^verbatim>\<open>query\<close> field, \<^verbatim>\<open>search_title("elon musk")\<close> called directly raises
  \<^verbatim>\<open>KeyError\<close>, but \<^verbatim>\<open>search_title("elon muskk")\<close>, sent to \<^verbatim>\<open>"elon musk"\<close> by the
  suggestion, returns \<^verbatim>\<open>None\<close>: the outcome of the recursive call is not handed on as it
  is. (\<open>search_title_retry\<close> above is what holds in general: the retry uses the limit 5
  and its outcome is handed on unless it is that \<^verbatim>\<open>KeyError\<close>.)
\<close>

theorem search_title_retry_masks_KeyError:
  "search_title (JStr ''elon muskk'') 5
     [search_response (JInt 0) (Some (JStr ''elon musk'')) (JList []), error_response]
     = ([SearchRequest ''5'' ''elon_muskk'', SearchRequest ''5'' ''elon_musk''], Return None)
   \<and> search_title (JStr ''elon musk'') 5 [error_response]
     = ([SearchRequest ''5'' ''elon_musk''], Raise KeyError)"
  by (simp add: search_title.simps search_response_def error_response_def searchinfo_field_def
        str_5 replace_spaces_def)

subsection \<open>The loop over the hits\<close>

lemma map_of_set_key: "map_of (set_key kvs k v) = (map_of kvs)(k \<mapsto> v)"
  by (induction kvs) auto

lemma clean_page_Inr:
  "clean_page p = Inr p' \<longleftrightarrow>
     (\<exists>kvs snip. p = JObj kvs \<and> map_of kvs ''snippet'' = Some (JStr snip)
        \<and> p' = JObj (set_key kvs ''snippet'' (JStr (cleanhtml snip))))"
proof (cases p)
  case (JObj kvs)
  show ?thesis
  proof (cases "map_of kvs ''snippet''")
    case None
    with JObj show ?thesis by (simp add: clean_page_def)
  next
    case (Some v)
    with JObj show ?thesis by (cases v) (auto simp: clean_page_def)
  qed
qed (simp_all add: clean_page_def)

lemma clean_pages_acc:
  "clean_pages pages acc = Inr res \<longleftrightarrow>
     (\<exists>res'. res = acc @ res' \<and> list_all2 (\<lambda>p p'. clean_page p = Inr p') pages res')"
proof (induction pages arbitrary: acc)
  case Nil
  show ?case by auto
next
  case (Cons p pages)
  show ?case
  proof (cases "clean_page p")
    case (Inl e)
    then show ?thesis by (auto simp: list_all2_Cons1)
  next
    case (Inr p')
    then show ?thesis by (auto simp: Cons.IH list_all2_Cons1)
  qed
qed

lemma clean_pages_length: "clean_pages pages [] = Inr res \<Longrightarrow> length res = length pages"
  by (auto simp: clean_pages_acc dest: list_all2_lengthD)

lemma clean_pages_nth:
  "clean_pages pages [] = Inr res \<Longrightarrow> i < length pages \<Longrightarrow> clean_page (pages ! i) = Inr (res ! i)"
  by (auto simp: clean_pages_acc dest: list_all2_nthD)

lemma clean_page_fields:
  assumes "clean_page p = Inr p'"
  shows "\<exists>snip. getitem p ''snippet'' = Inr (JStr snip)
           \<and> getitem p' ''snippet'' = Inr (JStr (cleanhtml snip))
           \<and> (\<forall>k. k \<noteq> ''snippet'' \<longrightarrow> getitem p' k = getitem p k)"
proof -
  from assms obtain kvs snip where
    p: "p = JObj kvs" "map_of kvs ''snippet'' = Some (JStr snip)"
       "p' = JObj (set_key kvs ''snippet'' (JStr (cleanhtml snip)))"
    by (auto simp: clean_page_Inr)
  then have "getitem p ''snippet'' = Inr (JStr snip)"
    and "getitem p' ''snippet'' = Inr (JStr (cleanhtml snip))"
    and "\<forall>k. k \<noteq> ''snippet'' \<longrightarrow> getitem p' k = getitem p k"
    by (simp_all add: map_of_set_key)
  then show ?thesis by blast
qed

lemma clean_pages_total:
  "\<forall>p \<in> set pages. \<exists>snip. getitem p ''snippet'' = Inr (JStr snip) \<Longrightarrow>
   \<exists>res. clean_pages pages acc = Inr res"
proof (induction pages arbitrary: acc)
  case Nil
  show ?case by simp
next
  case (Cons p pages)
  from Cons.prems obtain snip where sn: "getitem p ''snippet'' = Inr (JStr snip)" by auto
  then obtain kvs where "p = JObj kvs" by (cases p) auto
  with sn obtain p' where "clean_page p = Inr p'" by (auto simp: clean_page_def)
  with Cons show ?case by simp
qed

lemma search_title_Return_SomeD:
  "search_title title_guess srlimit script = (evs, Return (Some res)) \<Longrightarrow>
   evs \<noteq> [] \<and> length evs \<le> length script \<and>
   (\<exists>json_data totalhits hits pages.
      script ! (length evs - 1) = Body json_data
      \<and> searchinfo_field json_data ''totalhits'' = Inr totalhits \<and> \<not> py_eq0 totalhits
      \<and> search_field json_data = Inr hits \<and> py_iter hits = Inr pages
      \<and> clean_pages pages [] = Inr res)"
proof (induction script arbitrary: title_guess srlimit evs)
  case Nil
  then show ?case
    by (cases title_guess) (simp_all add: search_title_not_str search_title_Nil)
next
  case (Cons r rest)
  from Cons.prems obtain s where s: "title_guess = JStr s"
    by (cases title_guess) (simp_all add: search_title_not_str)
  from Cons.prems s obtain json_data where r: "r = Body json_data"
    by (cases r) (simp_all add: search_title_Fault)
  from Cons.prems s r obtain totalhits where th: "searchinfo_field json_data ''totalhits'' = Inr totalhits"
    by (cases "searchinfo_field json_data ''totalhits''") (simp_all add: search_title_totalhits_raises)
  show ?case
  proof (cases "py_eq0 totalhits")
    case False
    from Cons.prems s r th False have evs: "evs = [SearchRequest (str srlimit) (replace_spaces s)]"
      and out: "(case search_field json_data of
                   Inl e \<Rightarrow> Raise e
                 | Inr hits \<Rightarrow>
                     (case py_iter hits of
                        Inl e \<Rightarrow> Raise e
                      | Inr pages \<Rightarrow>
                          (case clean_pages pages [] of
                             Inl e \<Rightarrow> Raise e
                           | Inr suggestions \<Rightarrow> Return (Some suggestions)))) = Return (Some res)"
      by (simp_all add: search_title_hits)
    from out obtain hits pages where "search_field json_data = Inr hits" "py_iter hits = Inr pages"
      "clean_pages pages [] = Inr res"
      by (auto split: sum.splits)
    with evs r th False show ?thesis by simp
  next
    case True
    show ?thesis
    proof (cases "searchinfo_field json_data ''suggestion''")
      case (Inl e)
      with Cons.prems s r th True show ?thesis
        by (simp add: search_title_no_suggestion split: if_splits)
    next
      case (Inr new_guess)
      obtain evs' out' where rec: "search_title new_guess 5 rest = (evs', out')"
        by (cases "search_title new_guess 5 rest")
      with Cons.prems s r th True Inr have evs: "evs = SearchRequest (str srlimit) (replace_spaces s) # evs'"
        and out: "out' = Return (Some res)"
        by (simp_all add: search_title_retry split: if_splits)
      from Cons.IH [OF rec [unfolded out]] evs show ?thesis
        by (cases evs') auto
    qed
  qed
qed

text \<open>
  Claim C2, as the code has it. A response with zero total hits and no \<^verbatim>\<open>suggestion\<close>
  field makes \<^verbatim>\<open>search_title\<close> return \<^verbatim>\<open>None\<close> after its one request; a response with
  zero total hits and a suggestion makes it go on with the retry (limit 5, the rest of
  the script). The empty list is a possible result, but only from a response that
  reports a nonzero \<^verbatim>\<open>totalhits\<close> and whose \<^verbatim>\<open>search\<close> value is empty: that is the last
  response the call has read.
\<close>

theorem search_title_none_or_hits:
  "(\<forall>s srlimit json_data rest totalhits.
      searchinfo_field json_data ''totalhits'' = Inr totalhits \<and> py_eq0 totalhits
      \<and> searchinfo_field json_data ''suggestion'' = Inl KeyError \<longrightarrow>
      search_title (JStr s) srlimit (Body json_data # rest) =
        ([SearchRequest (str srlimit) (replace_spaces s)], Return None))
   \<and> (\<forall>s srlimit json_data rest totalhits new_guess.
      searchinfo_field json_data ''totalhits'' = Inr totalhits \<and> py_eq0 totalhits
      \<and> searchinfo_field json_data ''suggestion'' = Inr new_guess \<longrightarrow>
      fst (search_title (JStr s) srlimit (Body json_data # rest)) =
        SearchRequest (str srlimit) (replace_spaces s) # fst (search_title new_guess 5 rest))
   \<and> (\<forall>title_guess srlimit script evs.
      search_title title_guess srlimit script = (evs, Return (Some [])) \<longrightarrow>
      evs \<noteq> [] \<and> length evs \<le> length script \<and>
      (\<exists>json_data totalhits hits.
         script ! (length evs - 1) = Body json_data
         \<and> searchinfo_field json_data ''totalhits'' = Inr totalhits \<and> \<not> py_eq0 totalhits
         \<and> search_field json_data = Inr hits \<and> py_iter hits = Inr []))"
proof (intro conjI allI impI)
  fix s srlimit json_data rest totalhits
  assume "searchinfo_field json_data ''totalhits'' = Inr totalhits \<and> py_eq0 totalhits
      \<and> searchinfo_field json_data ''suggestion'' = Inl KeyError"
  then show "search_title (JStr s) srlimit (Body json_data # rest) =
        ([SearchRequest (str srlimit) (replace_spaces s)], Return None)"
    by (simp add: search_title_no_suggestion)
next
  fix s srlimit json_data rest totalhits new_guess
  assume "searchinfo_field json_data ''totalhits'' = Inr totalhits \<and> py_eq0 totalhits
      \<and> searchinfo_field json_data ''suggestion'' = Inr new_guess"
  then show "fst (search_title (JStr s) srlimit (Body json_data # rest)) =
        SearchRequest (str srlimit) (replace_spaces s) # fst (search_title new_guess 5 rest)"
    by (simp add: search_title_retry)
next
  fix title_guess srlimit script evs
  assume a: "search_title title_guess srlimit script = (evs, Return (Some []))"
  from search_title_Return_SomeD [OF a] obtain json_data totalhits hits pages where
    e: "evs \<noteq> []" "length evs \<le> length script" and
    j: "script ! (length evs - 1) = Body json_data"
       "searchinfo_field json_data ''totalhits'' = Inr totalhits" "\<not> py_eq0 totalhits"
       "search_field json_data = Inr hits" "py_iter hits = Inr pages"
       "clean_pages pages [] = Inr []"
    by blast
  from j(6) have "pages = []" by (auto dest: clean_pages_length)
  with j have "\<exists>json_data totalhits hits.
         script ! (length evs - 1) = Body json_data
         \<and> searchinfo_field json_data ''totalhits'' = Inr totalhits \<and> \<not> py_eq0 totalhits
         \<and> search_field json_data = Inr hits \<and> py_iter hits = Inr []" by blast
  with e show "evs \<noteq> []" and "length evs \<le> length script"
    and "\<exists>json_data totalhits hits.
         script ! (length evs - 1) = Body json_data
         \<and> searchinfo_field json_data ''totalhits'' = Inr totalhits \<and> \<not> py_eq0 totalhits
         \<and> search_field json_data = Inr hits \<and> py_iter hits = Inr []" by blast+
qed

text \<open>
  The claim as worded fails on a response that reports three hits and lists none.
\<close>

theorem search_title_empty_counterexample:
  "search_title (JStr ''elon musk'') 5 [search_response (JInt 3) None (JList [])]
     = ([SearchRequest ''5'' ''elon_musk''], Return (Some []))"
  by (simp add: search_title.simps search_response_def searchinfo_field_def search_field_def
        str_5 replace_spaces_def)

theorem search_title_none_or_hits_witness:
  "search_title (JStr ''qqq zzz'') 7 [search_response (JInt 0) None (JList [])]
     = ([SearchRequest (str 7) (replace_spaces ''qqq zzz'')], Return None)
   \<and> fst (search_title (JStr ''elon muskk'') 7
            [search_response (JInt 0) (Some (JStr ''elon musk'')) (JList [])])
     = SearchRequest (str 7) (replace_spaces ''elon muskk'') # fst (search_title (JStr ''elon musk'') 5 [])
   \<and> (\<exists>json_data totalhits hits.
         [search_response (JInt 3) None (JList [])] ! (length [SearchRequest ''5'' ''elon_musk''] - 1)
           = Body json_data
         \<and> searchinfo_field json_data ''totalhits'' = Inr totalhits \<and> \<not> py_eq0 totalhits
         \<and> search_field json_data = Inr hits \<and> py_iter hits = Inr [])"
proof -
  note T = search_title_none_or_hits
  obtain j0 where j0: "search_response (JInt 0) None (JList []) = Body j0"
    using search_response_Body by blast
  from search_response_fields [OF j0]
  have 1: "search_title (JStr ''qqq zzz'') 7 [search_response (JInt 0) None (JList [])]
     = ([SearchRequest (str 7) (replace_spaces ''qqq zzz'')], Return None)"
    unfolding j0
    by (intro T [THEN conjunct1, rule_format, of j0 "JInt 0"]) simp
  obtain j1 where j1: "search_response (JInt 0) (Some (JStr ''elon musk'')) (JList []) = Body j1"
    using search_response_Body by blast
  from search_response_fields [OF j1]
  have 2: "fst (search_title (JStr ''elon muskk'') 7
            [search_response (JInt 0) (Some (JStr ''elon musk'')) (JList [])])
     = SearchRequest (str 7) (replace_spaces ''elon muskk'') # fst (search_title (JStr ''elon musk'') 5 [])"
    unfolding j1
    by (intro T [THEN conjunct2, THEN conjunct1, rule_format, of j1 "JInt 0"]) simp
  have "search_title (JStr ''elon musk'') 5 [search_response (JInt 3) None (JList [])]
     = ([SearchRequest ''5'' ''elon_musk''], Return (Some []))"
    by (simp add: search_title.simps search_response_def searchinfo_field_def search_field_def
        str_5 replace_spaces_def)
  from T [THEN conjunct2, THEN conjunct2, rule_format, OF this]
  have 3: "\<exists>json_data totalhits hits.
         [search_response (JInt 3) None (JList [])] ! (length [SearchRequest ''5'' ''elon_musk''] - 1)
           = Body json_data
         \<and> searchinfo_field json_data ''totalhits'' = Inr totalhits \<and> \<not> py_eq0 totalhits
         \<and> search_field json_data = Inr hits \<and> py_iter hits = Inr []"
    by blast
  from 1 2 3 show ?thesis by blast
qed

text \<open>
  Claim C3, as the code has it. On a response with nonzero \<^verbatim>\<open>totalhits\<close>, a list that
  \<^verbatim>\<open>search_title\<close> returns has one entry for each entry of the response's \<^verbatim>\<open>search\<close>
  value, in the same order: the \<open>i\<close>-th entry is the \<open>i\<close>-th hit with its \<^verbatim>\<open>snippet\<close>
  replaced by \<^verbatim>\<open>cleanhtml\<close> of it and every other field as it was. So it has at most
  \<open>srlimit\<close> entries when the response lists at most \<open>srlimit\<close> hits; the code does not
  cut the list itself. When every hit has a string \<^verbatim>\<open>snippet\<close>, the call does return
  such a list, after one request.
\<close>

theorem search_title_hits_cleaned:
  assumes "searchinfo_field json_data ''totalhits'' = Inr totalhits" and "\<not> py_eq0 totalhits"
  shows "(\<forall>result. snd (search_title (JStr s) srlimit (Body json_data # rest)) = Return result \<longrightarrow>
            (\<exists>hits pages suggestions.
               search_field json_data = Inr hits \<and> py_iter hits = Inr pages
               \<and> result = Some suggestions \<and> length suggestions = length pages
               \<and> (int (length pages) \<le> srlimit \<longrightarrow> int (length suggestions) \<le> srlimit)
               \<and> (\<forall>i<length pages. \<exists>snip.
                     getitem (pages ! i) ''snippet'' = Inr (JStr snip)
                     \<and> getitem (suggestions ! i) ''snippet'' = Inr (JStr (cleanhtml snip))
                     \<and> (\<forall>k. k \<noteq> ''snippet'' \<longrightarrow> getitem (suggestions ! i) k = getitem (pages ! i) k))))
         \<and> (\<forall>hits pages.
               search_field json_data = Inr hits \<and> py_iter hits = Inr pages
               \<and> (\<forall>p \<in> set pages. \<exists>snip. getitem p ''snippet'' = Inr (JStr snip)) \<longrightarrow>
               (\<exists>suggestions. search_title (JStr s) srlimit (Body json_data # rest) =
                  ([SearchRequest (str srlimit) (replace_spaces s)], Return (Some suggestions))))"
proof (intro conjI allI impI)
  fix result
  assume ret: "snd (search_title (JStr s) srlimit (Body json_data # rest)) = Return result"
  from ret assms obtain hits pages suggestions where
    h: "search_field json_data = Inr hits" "py_iter hits = Inr pages"
       "clean_pages pages [] = Inr suggestions" "result = Some suggestions"
    by (auto simp: search_title_hits split: sum.splits)
  have len: "length suggestions = length pages" using h(3) by (rule clean_pages_length)
  have "\<forall>i<length pages. \<exists>snip.
           getitem (pages ! i) ''snippet'' = Inr (JStr snip)
           \<and> getitem (suggestions ! i) ''snippet'' = Inr (JStr (cleanhtml snip))
           \<and> (\<forall>k. k \<noteq> ''snippet'' \<longrightarrow> getitem (suggestions ! i) k = getitem (pages ! i) k)"
  proof (intro allI impI)
    fix i assume "i < length pages"
    with h(3) have "clean_page (pages ! i) = Inr (suggestions ! i)" by (rule clean_pages_nth)
    then show "\<exists>snip.
           getitem (pages ! i) ''snippet'' = Inr (JStr snip)
           \<and> getitem (suggestions ! i) ''snippet'' = Inr (JStr (cleanhtml snip))
           \<and> (\<forall>k. k \<noteq> ''snippet'' \<longrightarrow> getitem (suggestions ! i) k = getitem (pages ! i) k)"
      by (rule clean_page_fields)
  qed
  with h len show "\<exists>hits pages suggestions.
               search_field json_data = Inr hits \<and> py_iter hits = Inr pages
               \<and> result = Some suggestions \<and> length suggestions = length pages
               \<and> (int (length pages) \<le> srlimit \<longrightarrow> int (length suggestions) \<le> srlimit)
               \<and> (\<forall>i<length pages. \<exists>snip.
                     getitem (pages ! i) ''snippet'' = Inr (JStr snip)
                     \<and> getitem (suggestions ! i) ''snippet'' = Inr (JStr (cleanhtml snip))
                     \<and> (\<forall>k. k \<noteq> ''snippet'' \<longrightarrow> getitem (suggestions ! i) k = getitem (pages ! i) k))"
    by simp
next
  fix hits pages
  assume a: "search_field json_data = Inr hits \<and> py_iter hits = Inr pages
               \<and> (\<forall>p \<in> set pages. \<exists>snip. getitem p ''snippet'' = Inr (JStr snip))"
  then obtain suggestions where "clean_pages pages [] = Inr suggestions"
    using clean_pages_total [of pages "[]"] by blast
  with a assms show "\<exists>suggestions. search_title (JStr s) srlimit (Body json_data # rest) =
                  ([SearchRequest (str srlimit) (replace_spaces s)], Return (Some suggestions))"
    by (simp add: search_title_hits)
qed

text \<open>
  The claim as worded fails when the response lists more hits than were asked for:
  with \<^verbatim>\<open>srlimit = 1\<close> and two hits in the response, two results come back.
\<close>

theorem search_title_limit_counterexample:
  "search_title (JStr ''elon musk'') 1
     [search_response (JInt 2) None
        (JList [hit ''Elon Musk'' ''<span>Elon</span> Musk'', hit ''Musk family'' ''The <b>Musk</b> family''])]
     = ([SearchRequest ''1'' ''elon_musk''],
        Return (Some [hit ''Elon Musk'' ''Elon Musk'', hit ''Musk family'' ''The Musk family'']))
   \<and> int (length [hit ''Elon Musk'' ''Elon Musk'', hit ''Musk family'' ''The Musk family'']) > 1"
  by (simp add: search_title.simps search_response_def searchinfo_field_def search_field_def
        str_1 replace_spaces_def hit_def clean_page_def)

theorem search_title_hits_cleaned_witness:
  "\<exists>suggestions.
     search_title (JStr ''elon musk'') 5
       [search_response (JInt 2) None
          (JList [hit ''Elon Musk'' ''<span>Elon</span> Musk'', hit ''Musk family'' ''The <b>Musk</b> family''])]
     = ([SearchRequest (str 5) (replace_spaces ''elon musk'')], Return (Some suggestions))
     \<and> length suggestions = 2
     \<and> getitem (suggestions ! 0) ''snippet'' = Inr (JStr ''Elon Musk'')
     \<and> getitem (suggestions ! 1) ''title'' = Inr (JStr ''Musk family'')"
proof -
  let ?pages = "[hit ''Elon Musk'' ''<span>Elon</span> Musk'', hit ''Musk family'' ''The <b>Musk</b> family'']"
  obtain j where j: "search_response (JInt 2) None (JList ?pages) = Body j"
    using search_response_Body by blast
  note f = search_response_fields [OF j]
  have nz: "\<not> py_eq0 (JInt 2)" by simp
  note T = search_title_hits_cleaned [OF f(1) nz, of "''elon musk''" 5 "[]"]
  have wf: "search_field j = Inr (JList ?pages) \<and> py_iter (JList ?pages) = Inr ?pages
        \<and> (\<forall>p \<in> set ?pages. \<exists>snip. getitem p ''snippet'' = Inr (JStr snip))"
    using f(3) by (simp add: hit_def)
  from T [THEN conjunct2, rule_format, OF wf] obtain suggestions where
    st: "search_title (JStr ''elon musk'') 5 [Body j] =
           ([SearchRequest (str 5) (replace_spaces ''elon musk'')], Return (Some suggestions))"
    by blast
  then have "snd (search_title (JStr ''elon musk'') 5 [Body j]) = Return (Some suggestions)" by simp
  from T [THEN conjunct1, rule_format, OF this] f(3)
  have len: "length suggestions = 2"
    and nth: "\<forall>i<2. \<exists>snip.
                getitem (?pages ! i) ''snippet'' = Inr (JStr snip)
                \<and> getitem (suggestions ! i) ''snippet'' = Inr (JStr (cleanhtml snip))
                \<and> (\<forall>k. k \<noteq> ''snippet'' \<longrightarrow> getitem (suggestions ! i) k = getitem (?pages ! i) k)"
    by auto
  from nth [rule_format, of 0] have s0: "getitem (suggestions ! 0) ''snippet'' = Inr (JStr ''Elon Musk'')"
    by (auto simp: hit_def)
  from nth [rule_format, of 1] have s1: "getitem (suggestions ! 1) ''title'' = Inr (JStr ''Musk family'')"
    by (auto simp: hit_def)
  from st len s0 s1 show ?thesis unfolding j by blast
qed

section \<open>Properties of get_links\<close>

subsection \<open>The loop over the links of one response\<close>

lemma collect_links_Cons:
  "collect_links (l # links) num_links pl =
     (if is_ns0 l then
        (case getitem l ''title'' of
           Inl e \<Rightarrow> ForRaise e
         | Inr title \<Rightarrow>
             if Some (int (length (pl @ [title]))) = num_links then ReturnEarly (pl @ [title])
             else collect_links links num_links (pl @ [title]))
      else
        (case getitem l ''ns'' of
           Inl e \<Rightarrow> ForRaise e
         | Inr ns \<Rightarrow> collect_links links num_links pl))"
  by (simp add: is_ns0_def Let_def split: sum.splits)

lemma collect_links_Completed:
  "collect_links links num_links pl = Completed pl' \<Longrightarrow>
   pl' = pl @ map link_title (filter is_ns0 links)
   \<and> (\<forall>l \<in> set (filter is_ns0 links). getitem l ''title'' = Inr (link_title l))"
proof (induction links arbitrary: pl)
  case Nil
  then show ?case by simp
next
  case (Cons l links)
  show ?case
  proof (cases "is_ns0 l")
    case False
    with Cons.prems have "collect_links links num_links pl = Completed pl'"
      by (simp add: collect_links_Cons del: collect_links.simps split: sum.splits)
    from Cons.IH [OF this] False show ?thesis by simp
  next
    case True
    with Cons.prems obtain title where t: "getitem l ''title'' = Inr title"
      and rec: "collect_links links num_links (pl @ [title]) = Completed pl'"
      by (simp add: collect_links_Cons del: collect_links.simps split: sum.splits if_splits)
    from t have "link_title l = title" by (simp add: link_title_def)
    with Cons.IH [OF rec] True t show ?thesis by simp
  qed
qed

lemma collect_links_ReturnEarly:
  "collect_links links num_links pl = ReturnEarly pl' \<Longrightarrow>
   \<exists>ls. pl' = pl @ map link_title ls \<and> prefix ls (filter is_ns0 links)
        \<and> (\<forall>l \<in> set ls. getitem l ''title'' = Inr (link_title l))"
proof (induction links arbitrary: pl)
  case Nil
  then show ?case by simp
next
  case (Cons l links)
  show ?case
  proof (cases "is_ns0 l")
    case False
    with Cons.prems have "collect_links links num_links pl = ReturnEarly pl'"
      by (simp add: collect_links_Cons del: collect_links.simps split: sum.splits)
    from Cons.IH [OF this] False show ?thesis by simp
  next
    case True
    with Cons.prems obtain title where t: "getitem l ''title'' = Inr title"
      by (cases "getitem l ''title''") (simp_all add: collect_links_Cons del: collect_links.simps)
    then have lt: "link_title l = title" by (simp add: link_title_def)
    show ?thesis
    proof (cases "Some (int (length (pl @ [title]))) = num_links")
      case eq: True
      with Cons.prems True t have "pl' = pl @ [title]"
        by (simp add: collect_links_Cons del: collect_links.simps)
      with True lt t have "pl' = pl @ map link_title [l] \<and> prefix [l] (filter is_ns0 (l # links))
          \<and> (\<forall>l' \<in> set [l]. getitem l' ''title'' = Inr (link_title l'))" by simp
      then show ?thesis by blast
    next
      case neq: False
      with Cons.prems True t have "collect_links links num_links (pl @ [title]) = ReturnEarly pl'"
        by (simp add: collect_links_Cons del: collect_links.simps)
      from Cons.IH [OF this] obtain ls where
        "pl' = (pl @ [title]) @ map link_title ls" "prefix ls (filter is_ns0 links)"
        "\<forall>l \<in> set ls. getitem l ''title'' = Inr (link_title l)" by blast
      with True lt t have "pl' = pl @ map link_title (l # ls)
          \<and> prefix (l # ls) (filter is_ns0 (l # links))
          \<and> (\<forall>l' \<in> set (l # ls). getitem l' ''title'' = Inr (link_title l'))" by simp
      then show ?thesis by blast
    qed
  qed
qed

lemma get_links_loop_prefix:
  "get_links_loop page_name num_links pllimit plcontinue pl script = (evs, Return titles) \<Longrightarrow>
   \<exists>ls. titles = pl @ map link_title ls
        \<and> prefix ls (filter is_ns0 (concat (map response_links script)))
        \<and> (\<forall>l \<in> set ls. getitem l ''title'' = Inr (link_title l))"
proof (induction page_name num_links pllimit plcontinue pl script arbitrary: evs
       rule: get_links_loop.induct)
  case (1 page_name num_links pllimit plcontinue pl)
  then show ?case by simp
next
  case (2 page_name num_links pllimit plcontinue pl script)
  then show ?case by simp
next
  case (3 page_name num_links pllimit plcontinue pl json_data script)
  let ?all = "\<lambda>s. filter is_ns0 (concat (map response_links s))"
  let ?ok = "\<lambda>ls. \<forall>l \<in> set ls. getitem l ''title'' = Inr (link_title l)"
  from "3.prems" obtain page where page: "pages_popitem json_data = Inr page"
    by (cases "pages_popitem json_data") (simp_all add: Let_def)
  show ?case
  proof (cases "getitem page ''links''")
    case (Inl e)
    with "3.prems" page have "titles = pl" by (simp add: Let_def split: if_splits)
    then have "titles = pl @ map link_title [] \<and> prefix [] (?all (Body json_data # script)) \<and> ?ok []"
      by simp
    then show ?thesis by blast
  next
    case (Inr links)
    with "3.prems" page obtain link_list where ll: "py_iter links = Inr link_list"
      by (cases "py_iter links") (simp_all add: Let_def)
    with page Inr have rl: "response_links (Body json_data) = link_list"
      by (simp add: response_links_def)
    show ?thesis
    proof (cases "collect_links link_list num_links pl")
      case (ForRaise e)
      with "3.prems" page Inr ll show ?thesis by (simp add: Let_def)
    next
      case (ReturnEarly pl')
      with "3.prems" page Inr ll have "titles = pl'" by (simp add: Let_def)
      with collect_links_ReturnEarly [OF ReturnEarly] obtain ls where
        "titles = pl @ map link_title ls" "prefix ls (filter is_ns0 link_list)" "?ok ls" by blast
      with rl have "titles = pl @ map link_title ls \<and> prefix ls (?all (Body json_data # script)) \<and> ?ok ls"
        by (simp add: prefix_prefix)
      then show ?thesis by blast
    next
      case (Completed pl')
      from collect_links_Completed [OF Completed]
      have pl': "pl' = pl @ map link_title (filter is_ns0 link_list)"
        and ok: "?ok (filter is_ns0 link_list)" by blast+
      show ?thesis
      proof (cases "continue_field json_data")
        case (Inl e)
        with "3.prems" page Inr ll Completed have "titles = pl'"
          by (simp add: Let_def split: if_splits)
        with pl' rl ok have "titles = pl @ map link_title (filter is_ns0 link_list)
            \<and> prefix (filter is_ns0 link_list) (?all (Body json_data # script))
            \<and> ?ok (filter is_ns0 link_list)"
          by simp
        then show ?thesis by blast
      next
        case (Inr plcontinue')
        obtain evs' out' where rec:
          "get_links_loop page_name num_links pllimit plcontinue' pl' script = (evs', out')"
          by (cases "get_links_loop page_name num_links pllimit plcontinue' pl' script")
        with "3.prems" page \<open>getitem page ''links'' = Inr links\<close> ll Completed Inr
        have "out' = Return titles" by (simp add: Let_def)
        with rec have "get_links_loop page_name num_links pllimit plcontinue' pl' script
                         = (evs', Return titles)" by simp
        from "3.IH" [OF refl page \<open>getitem page ''links'' = Inr links\<close> ll Completed Inr this]
        obtain ls where ls: "titles = pl' @ map link_title ls" "prefix ls (?all script)" "?ok ls"
          by blast
        with pl' rl ok have "titles = pl @ map link_title (filter is_ns0 link_list @ ls)
            \<and> prefix (filter is_ns0 link_list @ ls) (?all (Body json_data # script))
            \<and> ?ok (filter is_ns0 link_list @ ls)"
          by auto
        then show ?thesis by blast
      qed
    qed
  qed
qed

lemma collect_links_skip:
  "getitem l ''ns'' = Inr ns \<Longrightarrow> \<not> py_eq0 ns \<Longrightarrow>
   collect_links (l # links) num_links pl = collect_links links num_links pl"
  by simp

lemma collect_links_filter:
  "collect_links links num_links pl
     = collect_links (filter (\<lambda>l. \<not> other_namespace l) links) num_links pl"
proof (induction links arbitrary: pl)
  case Nil
  show ?case by simp
next
  case (Cons l links)
  show ?case
  proof (cases "other_namespace l")
    case True
    then obtain ns where "getitem l ''ns'' = Inr ns" "\<not> py_eq0 ns"
      by (auto simp: other_namespace_def split: sum.splits)
    with True Cons.IH [of pl] show ?thesis by simp
  next
    case False
    show ?thesis
    proof (cases "getitem l ''ns''")
      case (Inl e)
      with False show ?thesis by simp
    next
      case (Inr ns)
      with False have z: "py_eq0 ns" by (simp add: other_namespace_def)
      show ?thesis
      proof (cases "getitem l ''title''")
        case (Inl e)
        with False Inr z show ?thesis by simp
      next
        case t: (Inr title)
        with False Inr z Cons.IH [of "pl @ [title]"] show ?thesis by (simp add: Let_def)
      qed
    qed
  qed
qed

lemma links_response_loop:
  "get_links_loop page_name num_links pllimit plcontinue pl (links_response (Some ls) cont # script) =
     (case collect_links ls num_links pl of
        ForRaise e \<Rightarrow>
          ([LinksRequest (replace_spaces page_name) pllimit
              (if plcontinue = JNull then None else Some plcontinue)], Raise e)
      | ReturnEarly pl' \<Rightarrow>
          ([LinksRequest (replace_spaces page_name) pllimit
              (if plcontinue = JNull then None else Some plcontinue)], Return pl')
      | Completed pl' \<Rightarrow>
          (case cont of
             None \<Rightarrow>
               ([LinksRequest (replace_spaces page_name) pllimit
                   (if plcontinue = JNull then None else Some plcontinue),
                 LogInfoFewer page_name num_links], Return pl')
           | Some plcontinue' \<Rightarrow>
               (LinksRequest (replace_spaces page_name) pllimit
                   (if plcontinue = JNull then None else Some plcontinue)
                # LogInfoContinue page_name plcontinue'
                # fst (get_links_loop page_name num_links pllimit plcontinue' pl' script),
                snd (get_links_loop page_name num_links pllimit plcontinue' pl' script))))"
  by (simp add: links_response_def pages_popitem_def continue_field_def Let_def case_prod_beta
        split: for_exit.splits option.splits)

lemma get_links_loop_filter:
  "get_links_loop page_name num_links pllimit plcontinue pl
     (map (\<lambda>r. links_response (Some (fst r)) (snd r)) rs)
   = get_links_loop page_name num_links pllimit plcontinue pl
     (map (\<lambda>r. links_response (Some (filter (\<lambda>l. \<not> other_namespace l) (fst r))) (snd r)) rs)"
proof (induction rs arbitrary: plcontinue pl)
  case Nil
  show ?case by simp
next
  case (Cons r rs)
  show ?case
    by (simp add: links_response_loop collect_links_filter [of "fst r"] Cons.IH
          del: get_links_loop.simps split: for_exit.splits option.splits)
qed

text \<open>
  Claim C7. When \<^verbatim>\<open>get_links\<close> returns, the titles it returns are, in order, the
  \<^verbatim>\<open>title\<close> values of an initial segment of the link entries of the responses that pass
  \<^verbatim>\<open>link["ns"] == 0\<close>: every returned title is the title of such an entry. An entry of
  another namespace is passed over in silence: the loop over the links goes on to the
  next entry with the accumulator as it was, so it ends as it would without those
  entries; and the whole call, on responses of the API's shape, sends the same
  requests, logs the same lines and ends the same way (same titles, or same exception)
  as on the responses with those entries taken out.
\<close>

theorem get_links_only_ns0:
  "(\<forall>evs titles. get_links page_name num_links script = (evs, Return titles) \<longrightarrow>
      (\<exists>ls. titles = map link_title ls
            \<and> prefix ls (filter is_ns0 (concat (map response_links script)))
            \<and> (\<forall>l \<in> set ls. getitem l ''title'' = Inr (link_title l))))
   \<and> (\<forall>l links pl ns. getitem l ''ns'' = Inr ns \<and> \<not> py_eq0 ns \<longrightarrow>
        collect_links (l # links) num_links pl = collect_links links num_links pl)
   \<and> (\<forall>links pl. collect_links links num_links pl
        = collect_links (filter (\<lambda>l. \<not> other_namespace l) links) num_links pl)
   \<and> (\<forall>rs. get_links page_name num_links (map (\<lambda>r. links_response (Some (fst r)) (snd r)) rs)
        = get_links page_name num_links
            (map (\<lambda>r. links_response (Some (filter (\<lambda>l. \<not> other_namespace l) (fst r))) (snd r)) rs))"
proof (intro conjI allI impI)
  fix evs titles
  assume "get_links page_name num_links script = (evs, Return titles)"
  then obtain pllimit where
    "get_links_loop page_name num_links pllimit JNull [] script = (evs, Return titles)"
    by (simp add: get_links_def Let_def)
  from get_links_loop_prefix [OF this]
  show "\<exists>ls. titles = map link_title ls
            \<and> prefix ls (filter is_ns0 (concat (map response_links script)))
            \<and> (\<forall>l \<in> set ls. getitem l ''title'' = Inr (link_title l))" by simp
next
  fix l links pl ns
  assume "getitem l ''ns'' = Inr ns \<and> \<not> py_eq0 ns"
  then show "collect_links (l # links) num_links pl = collect_links links num_links pl"
    by (simp add: collect_links_skip del: collect_links.simps)
next
  fix links pl
  show "collect_links links num_links pl
        = collect_links (filter (\<lambda>l. \<not> other_namespace l) links) num_links pl"
    by (rule collect_links_filter)
next
  fix rs :: "(json list \<times> json option) list"
  show "get_links page_name num_links (map (\<lambda>r. links_response (Some (fst r)) (snd r)) rs)
        = get_links page_name num_links
            (map (\<lambda>r. links_response (Some (filter (\<lambda>l. \<not> other_namespace l) (fst r))) (snd r)) rs)"
    by (simp add: get_links_def Let_def get_links_loop_filter)
qed

theorem get_links_only_ns0_witness:
  "get_links ''Elon Musk'' (Some 2)
     [links_response (Some [link 0 ''Tesla'', link 1 ''Talk:Tesla'']) (Some (JStr ''c1'')),
      links_response (Some [link 14 ''Category:People'', link 0 ''SpaceX'', link 0 ''PayPal'']) None]
   = ([LinksRequest ''Elon_Musk'' 2 None, LogInfoContinue ''Elon Musk'' (JStr ''c1''),
       LinksRequest ''Elon_Musk'' 2 (Some (JStr ''c1''))],
      Return [JStr ''Tesla'', JStr ''SpaceX''])
   \<and> get_links ''Elon Musk'' (Some 2)
     [links_response (Some [link 0 ''Tesla'', link 1 ''Talk:Tesla'']) (Some (JStr ''c1'')),
      links_response (Some [link 14 ''Category:People'', link 0 ''SpaceX'', link 0 ''PayPal'']) None]
   = get_links ''Elon Musk'' (Some 2)
     [links_response (Some [link 0 ''Tesla'']) (Some (JStr ''c1'')),
      links_response (Some [link 0 ''SpaceX'', link 0 ''PayPal'']) None]
   \<and> (\<exists>ls. [JStr ''Tesla'', JStr ''SpaceX''] = map link_title ls
        \<and> prefix ls (filter is_ns0 (concat (map response_links
             [links_response (Some [link 0 ''Tesla'', link 1 ''Talk:Tesla'']) (Some (JStr ''c1'')),
              links_response (Some [link 14 ''Category:People'', link 0 ''SpaceX'', link 0 ''PayPal'']) None]))))
   \<and> collect_links [link 1 ''Talk:Tesla'', link 0 ''SpaceX''] (Some 2) [JStr ''Tesla'']
       = collect_links [link 0 ''SpaceX''] (Some 2) [JStr ''Tesla'']"
proof -
  let ?s = "[links_response (Some [link 0 ''Tesla'', link 1 ''Talk:Tesla'']) (Some (JStr ''c1'')),
      links_response (Some [link 14 ''Category:People'', link 0 ''SpaceX'', link 0 ''PayPal'']) None]"
  note T = get_links_only_ns0 [of "''Elon Musk''" "Some 2" ?s]
  have 1: "get_links ''Elon Musk'' (Some 2) ?s
        = ([LinksRequest ''Elon_Musk'' 2 None, LogInfoContinue ''Elon Musk'' (JStr ''c1''),
            LinksRequest ''Elon_Musk'' 2 (Some (JStr ''c1''))],
           Return [JStr ''Tesla'', JStr ''SpaceX''])"
    by (simp add: get_links_def links_response_def link_def pages_popitem_def continue_field_def
          replace_spaces_def Let_def)
  from T [THEN conjunct1, rule_format, OF 1]
  have 3: "\<exists>ls. [JStr ''Tesla'', JStr ''SpaceX''] = map link_title ls
        \<and> prefix ls (filter is_ns0 (concat (map response_links ?s)))"
    by (elim exE conjE, intro exI conjI) assumption+
  from T [THEN conjunct2, THEN conjunct2, THEN conjunct2, rule_format,
          of "[([link 0 ''Tesla'', link 1 ''Talk:Tesla''], Some (JStr ''c1'')),
               ([link 14 ''Category:People'', link 0 ''SpaceX'', link 0 ''PayPal''], None)]"]
  have 2: "get_links ''Elon Musk'' (Some 2) ?s
     = get_links ''Elon Musk'' (Some 2)
       [links_response (Some [link 0 ''Tesla'']) (Some (JStr ''c1'')),
        links_response (Some [link 0 ''SpaceX'', link 0 ''PayPal'']) None]"
    by (simp add: other_namespace_def link_def)
  have "getitem (link 1 ''Talk:Tesla'') ''ns'' = Inr (JInt 1) \<and> \<not> py_eq0 (JInt 1)"
    by (simp add: link_def)
  from T [THEN conjunct2, THEN conjunct1, rule_format, OF this]
  have 4: "collect_links [link 1 ''Talk:Tesla'', link 0 ''SpaceX''] (Some 2) [JStr ''Tesla'']
       = collect_links [link 0 ''SpaceX''] (Some 2) [JStr ''Tesla'']" .
  from 1 2 3 4 show ?thesis by (intro conjI)
qed

subsection \<open>The requests\<close>

lemma get_links_loop_requests:
  "e \<in> set (fst (get_links_loop page_name num_links pllimit plcontinue pl script)) \<Longrightarrow>
   e = LinksRequest t l c \<Longrightarrow> l = pllimit"
proof (induction page_name num_links pllimit plcontinue pl script
       rule: get_links_loop.induct)
  case (1 page_name num_links pllimit plcontinue pl)
  then show ?case by simp
next
  case (2 page_name num_links pllimit plcontinue pl script)
  then show ?case by simp
next
  case (3 page_name num_links pllimit plcontinue pl json_data script)
  then show ?case
    by (auto simp: Let_def split: sum.splits for_exit.splits if_splits prod.splits)
qed

lemma get_links_loop_first:
  "\<exists>evs. fst (get_links_loop page_name num_links pllimit plcontinue pl script) =
      LinksRequest (replace_spaces page_name) pllimit (if plcontinue = JNull then None else Some plcontinue) # evs"
proof (cases script)
  case Nil
  then show ?thesis by simp
next
  case (Cons r rest)
  then show ?thesis
    by (cases r) (auto simp: Let_def split: sum.splits for_exit.splits prod.splits)
qed

text \<open>
  Claim C6. Every call sends a first request for the page, without \<^verbatim>\<open>plcontinue\<close>; and
  every request of the call carries \<^verbatim>\<open>pllimit = 500\<close> when \<open>num_links\<close> is \<^verbatim>\<open>None\<close> or
  above 500 and \<^verbatim>\<open>pllimit = num_links\<close> otherwise, hence never more than 500.
\<close>

theorem get_links_pllimit:
  "(\<exists>pllimit evs. fst (get_links page_name num_links script) =
        LinksRequest (replace_spaces page_name) pllimit None # evs)
   \<and> (\<forall>e \<in> set (fst (get_links page_name num_links script)). \<forall>titles pllimit plcontinue.
        e = LinksRequest titles pllimit plcontinue \<longrightarrow>
          (num_links = None \<or> (\<exists>n. num_links = Some n \<and> n > 500) \<longrightarrow> pllimit = 500)
          \<and> (\<forall>n. num_links = Some n \<and> n \<le> 500 \<longrightarrow> pllimit = n)
          \<and> pllimit \<le> 500)"
proof (intro conjI ballI allI impI)
  show "\<exists>pllimit evs. fst (get_links page_name num_links script) =
        LinksRequest (replace_spaces page_name) pllimit None # evs"
  proof -
    let ?l = "case num_links of None \<Rightarrow> 500 | Some n \<Rightarrow> if n > 500 then 500 else n"
    from get_links_loop_first [of page_name num_links ?l JNull "[]" script]
    obtain evs where "fst (get_links_loop page_name num_links ?l JNull [] script) =
        LinksRequest (replace_spaces page_name) ?l None # evs" by auto
    then have "fst (get_links page_name num_links script) =
        LinksRequest (replace_spaces page_name) ?l None # evs"
      by (simp add: get_links_def Let_def)
    then show ?thesis by (intro exI)
  qed
next
  fix e titles pllimit plcontinue
  assume e: "e \<in> set (fst (get_links page_name num_links script))"
    and r: "e = LinksRequest titles pllimit plcontinue"
  from e r have l: "pllimit = (case num_links of None \<Rightarrow> 500 | Some n \<Rightarrow> if n > 500 then 500 else n)"
    by (simp add: get_links_def Let_def get_links_loop_requests)
  { assume "num_links = None \<or> (\<exists>n. num_links = Some n \<and> n > 500)"
    with l show "pllimit = 500" by auto }
  { fix n assume "num_links = Some n \<and> n \<le> 500"
    with l show "pllimit = n" by auto }
  from l show "pllimit \<le> 500" by (auto split: option.splits)
qed

theorem get_links_pllimit_witness:
  "(\<exists>evs. fst (get_links ''Elon Musk'' (Some 700) [links_response (Some []) None])
       = LinksRequest (replace_spaces ''Elon Musk'') 500 None # evs)
   \<and> (\<exists>evs. fst (get_links ''Elon Musk'' (Some 15) [links_response (Some []) None])
       = LinksRequest (replace_spaces ''Elon Musk'') 15 None # evs)"
proof -
  let ?s = "[links_response (Some []) None]"
  note A = get_links_pllimit [of "''Elon Musk''" "Some 700" ?s]
  from A [THEN conjunct1] obtain pllimit evs where
    f: "fst (get_links ''Elon Musk'' (Some 700) ?s) = LinksRequest (replace_spaces ''Elon Musk'') pllimit None # evs"
    by blast
  then have "LinksRequest (replace_spaces ''Elon Musk'') pllimit None
               \<in> set (fst (get_links ''Elon Musk'' (Some 700) ?s))" by simp
  from A [THEN conjunct2, rule_format, OF this refl] have "pllimit = 500" by simp
  with f have 1: "\<exists>evs. fst (get_links ''Elon Musk'' (Some 700) ?s)
       = LinksRequest (replace_spaces ''Elon Musk'') 500 None # evs" by simp
  note B = get_links_pllimit [of "''Elon Musk''" "Some 15" ?s]
  from B [THEN conjunct1] obtain pllimit' evs' where
    g: "fst (get_links ''Elon Musk'' (Some 15) ?s) = LinksRequest (replace_spaces ''Elon Musk'') pllimit' None # evs'"
    by blast
  then have "LinksRequest (replace_spaces ''Elon Musk'') pllimit' None
               \<in> set (fst (get_links ''Elon Musk'' (Some 15) ?s))" by simp
  from B [THEN conjunct2, rule_format, OF this refl] have "pllimit' = 15" by simp
  with g have 2: "\<exists>evs. fst (get_links ''Elon Musk'' (Some 15) ?s)
       = LinksRequest (replace_spaces ''Elon Musk'') 15 None # evs" by simp
  from 1 2 show ?thesis by (rule conjI)
qed

text \<open>
  Claim C8. When the page taken from the \<^verbatim>\<open>pages\<close> map of a response is a dict without
  a \<^verbatim>\<open>links\<close> field, the iteration that reads this response logs the error and returns
  the accumulator \<open>pl\<close> as it stands: nothing is raised and no further request is sent,
  whatever the script holds next. On the first iteration that is the empty list, which
  is the result of \<^verbatim>\<open>get_links\<close>.
\<close>

theorem get_links_no_links_field:
  assumes "pages_popitem json_data = Inr page" and "getitem page ''links'' = Inl KeyError"
  shows "get_links_loop page_name num_links pllimit plcontinue pl (Body json_data # script) =
           ([LinksRequest (replace_spaces page_name) pllimit
               (if plcontinue = JNull then None else Some plcontinue),
             LogErrorNoLinks page_name],
            Return pl)
         \<and> (\<exists>pllimit. get_links page_name num_links (Body json_data # script) =
               ([LinksRequest (replace_spaces page_name) pllimit None, LogErrorNoLinks page_name],
                Return []))"
  using assms by (simp add: get_links_def Let_def)

theorem get_links_no_links_field_witness:
  "get_links ''Elon Musk'' None [links_response None None, links_response (Some [link 0 ''Tesla'']) None]
     = ([LinksRequest ''Elon_Musk'' 500 None, LogErrorNoLinks ''Elon Musk''], Return [])"
proof -
  obtain json_data where j: "links_response None None = Body json_data"
    by (simp add: links_response_def)
  then have p: "pages_popitem json_data = Inr (JObj [(''pageid'', JInt 909036)])"
    by (auto simp: links_response_def pages_popitem_def)
  have k: "getitem (JObj [(''pageid'', JInt 909036)]) ''links'' = Inl KeyError" by simp
  from get_links_no_links_field [OF p k, of "''Elon Musk''" None _ JNull "[]"
         "[links_response (Some [link 0 ''Tesla'']) None]", THEN conjunct2]
  obtain pllimit where
    g: "get_links ''Elon Musk'' None [Body json_data, links_response (Some [link 0 ''Tesla'']) None]
        = ([LinksRequest (replace_spaces ''Elon Musk'') pllimit None, LogErrorNoLinks ''Elon Musk''], Return [])"
    by blast
  then have "pllimit = 500" by (simp add: get_links_def Let_def p)
  with g show ?thesis unfolding j by (simp add: replace_spaces_def)
qed

subsection \<open>A requested count of 0\<close>

lemma collect_links_zero_no_return: "collect_links links (Some 0) pl \<noteq> ReturnEarly pl'"
proof (induction links arbitrary: pl)
  case Nil
  show ?case by simp
next
  case (Cons l links)
  then show ?case
    by (simp add: collect_links_Cons del: collect_links.simps split: sum.splits)
qed

lemma collect_links_zero_None: "collect_links links (Some 0) pl = collect_links links None pl"
proof (induction links arbitrary: pl)
  case Nil
  show ?case by simp
next
  case (Cons l links)
  then show ?case
    by (simp add: collect_links_Cons del: collect_links.simps split: sum.splits)
qed

lemma get_links_loop_zero_None:
  "snd (get_links_loop page_name (Some 0) pllimit plcontinue pl script)
     = snd (get_links_loop page_name None pllimit' plcontinue pl script)"
proof (induction script arbitrary: plcontinue pl)
  case Nil
  show ?case by simp
next
  case (Cons r script)
  show ?case
  proof (cases r)
    case Fault
    then show ?thesis by simp
  next
    case (Body json_data)
    show ?thesis
      unfolding Body
      by (simp add: Let_def collect_links_zero_None Cons.IH case_prod_beta
            split: sum.splits for_exit.splits)
  qed
qed

lemma collect_links_all:
  "\<forall>l \<in> set links. link_ok l \<Longrightarrow>
   collect_links links (Some 0) pl = Completed (pl @ map link_title (filter is_ns0 links))"
proof (induction links arbitrary: pl)
  case Nil
  show ?case by simp
next
  case (Cons l links)
  from Cons.prems have ok: "link_ok l" and rest: "\<forall>l \<in> set links. link_ok l" by simp_all
  show ?case
  proof (cases "is_ns0 l")
    case True
    with ok obtain title where t: "getitem l ''title'' = Inr title"
      by (auto simp: link_ok_def is_ns0_def split: sum.splits if_splits)
    then have "link_title l = title" by (simp add: link_title_def)
    with True t Cons.IH [OF rest, of "pl @ [title]"] show ?thesis
      by (simp add: collect_links_Cons del: collect_links.simps)
  next
    case False
    with ok obtain ns where "getitem l ''ns'' = Inr ns"
      by (auto simp: link_ok_def split: sum.splits)
    with False Cons.IH [OF rest, of pl] show ?thesis
      by (simp add: collect_links_Cons del: collect_links.simps)
  qed
qed

lemma get_links_loop_reads_all:
  "get_links_loop page_name (Some 0) pllimit plcontinue pl script = (evs, Return titles) \<Longrightarrow>
   titles = pl @ map link_title (filter is_ns0
              (concat (map response_links (take (length (filter is_request evs)) script))))"
proof (induction script arbitrary: plcontinue pl evs)
  case Nil
  then show ?case by simp
next
  case (Cons r script)
  from Cons.prems obtain json_data where r: "r = Body json_data" by (cases r) simp_all
  from Cons.prems r obtain page where page: "pages_popitem json_data = Inr page"
    by (cases "pages_popitem json_data") (simp_all add: Let_def)
  show ?case
  proof (cases "getitem page ''links''")
    case (Inl e)
    with Cons.prems r page have "titles = pl" and "length (filter is_request evs) = 1"
      by (auto simp: Let_def split: if_splits)
    moreover from Inl page have "response_links (Body json_data) = []"
      by (simp add: response_links_def)
    ultimately show ?thesis using r by simp
  next
    case (Inr links)
    with Cons.prems r page obtain link_list where ll: "py_iter links = Inr link_list"
      by (cases "py_iter links") (simp_all add: Let_def)
    with page Inr have rl: "response_links (Body json_data) = link_list"
      by (simp add: response_links_def)
    show ?thesis
    proof (cases "collect_links link_list (Some 0) pl")
      case (ForRaise e)
      with Cons.prems r page Inr ll show ?thesis by (simp add: Let_def)
    next
      case (ReturnEarly pl')
      then show ?thesis by (simp add: collect_links_zero_no_return)
    next
      case (Completed pl')
      from collect_links_Completed [OF Completed]
      have pl': "pl' = pl @ map link_title (filter is_ns0 link_list)" by blast
      show ?thesis
      proof (cases "continue_field json_data")
        case (Inl e)
        with Cons.prems r page Inr ll Completed
        have "titles = pl'" and "length (filter is_request evs) = 1"
          by (auto simp: Let_def split: if_splits)
        with pl' rl r show ?thesis by simp
      next
        case cont: (Inr plcontinue')
        obtain evs' out' where rec:
          "get_links_loop page_name (Some 0) pllimit plcontinue' pl' script = (evs', out')"
          by (cases "get_links_loop page_name (Some 0) pllimit plcontinue' pl' script")
        with Cons.prems r page Inr ll Completed cont
        have out: "out' = Return titles"
          and evs: "evs = LinksRequest (replace_spaces page_name) pllimit
                            (if plcontinue = JNull then None else Some plcontinue)
                          # LogInfoContinue page_name plcontinue' # evs'"
          by (simp_all add: Let_def)
        from Cons.IH [OF rec [unfolded out]] pl' rl r evs show ?thesis by simp
      qed
    qed
  qed
qed

lemma get_links_loop_all_pages:
  "\<forall>r \<in> set rs. \<forall>l \<in> set (fst r). link_ok l \<Longrightarrow> \<forall>l \<in> set last_ls. link_ok l \<Longrightarrow>
   snd (get_links_loop page_name (Some 0) pllimit plcontinue pl
          (map (\<lambda>r. links_response (Some (fst r)) (Some (snd r))) rs
           @ links_response (Some last_ls) None # unread))
     = Return (pl @ map link_title (filter is_ns0 (concat (map fst rs) @ last_ls)))"
proof (induction rs arbitrary: plcontinue pl)
  case Nil
  then show ?case
    by (simp add: links_response_loop collect_links_all del: get_links_loop.simps)
next
  case (Cons r rs)
  from Cons.prems have ok: "\<forall>l \<in> set (fst r). link_ok l"
    and rest: "\<forall>r \<in> set rs. \<forall>l \<in> set (fst r). link_ok l" by simp_all
  from Cons.IH [OF rest Cons.prems(2)] show ?case
    by (simp add: links_response_loop collect_links_all [OF ok] del: get_links_loop.simps)
qed

text \<open>
  Claim C10. With \<^verbatim>\<open>num_links = 0\<close> the test \<^verbatim>\<open>len(pl) == num_links\<close> comes after an
  append, so the loop over the links never takes its \<^verbatim>\<open>return\<close>: on entries it can
  handle it runs to its end and appends the title of every namespace-0 entry. The call
  ends exactly as the call with \<^verbatim>\<open>num_links = None\<close> ends on the same responses; each
  of its requests carries \<^verbatim>\<open>pllimit = 0\<close>; when it returns, it returns the titles of all
  the namespace-0 entries of all the responses it has read; on responses of the API's
  shape that are chained by continuation cursors it does return, with the titles of
  every page up to the first one without a cursor; and on the two responses below it
  returns two titles, more than the 0 asked for.
\<close>

theorem get_links_zero_never_returns_early:
  "(\<forall>links pl pl'. collect_links links (Some 0) pl \<noteq> ReturnEarly pl')
   \<and> snd (get_links page_name (Some 0) script) = snd (get_links page_name None script)
   \<and> (\<forall>e \<in> set (fst (get_links page_name (Some 0) script)). \<forall>titles pllimit plcontinue.
        e = LinksRequest titles pllimit plcontinue \<longrightarrow> pllimit = 0)
   \<and> get_links ''Elon Musk'' (Some 0)
        [links_response (Some [link 0 ''Tesla'', link 4 ''Wikipedia:Citation needed'']) (Some (JStr ''736|0|SpaceX'')),
         links_response (Some [link 0 ''SpaceX'']) None]
      = ([LinksRequest ''Elon_Musk'' 0 None,
          LogInfoContinue ''Elon Musk'' (JStr ''736|0|SpaceX''),
          LinksRequest ''Elon_Musk'' 0 (Some (JStr ''736|0|SpaceX'')),
          LogInfoFewer ''Elon Musk'' (Some 0)],
         Return [JStr ''Tesla'', JStr ''SpaceX''])
   \<and> (\<forall>links pl. (\<forall>l \<in> set links. link_ok l) \<longrightarrow>
        collect_links links (Some 0) pl = Completed (pl @ map link_title (filter is_ns0 links)))
   \<and> (\<forall>evs titles. get_links page_name (Some 0) script = (evs, Return titles) \<longrightarrow>
        titles = map link_title (filter is_ns0
                   (concat (map response_links (take (length (filter is_request evs)) script)))))
   \<and> (\<forall>rs last_ls unread.
        (\<forall>r \<in> set rs. \<forall>l \<in> set (fst r). link_ok l) \<and> (\<forall>l \<in> set last_ls. link_ok l) \<longrightarrow>
        snd (get_links page_name (Some 0)
               (map (\<lambda>r. links_response (Some (fst r)) (Some (snd r))) rs
                @ links_response (Some last_ls) None # unread))
          = Return (map link_title (filter is_ns0 (concat (map fst rs) @ last_ls))))"
proof (intro conjI allI ballI impI)
  fix links pl pl'
  show "collect_links links (Some 0) pl \<noteq> ReturnEarly pl'"
    by (rule collect_links_zero_no_return)
next
  show "snd (get_links page_name (Some 0) script) = snd (get_links page_name None script)"
    by (simp add: get_links_def Let_def get_links_loop_zero_None [of _ 0 _ _ _ 500])
next
  fix e titles pllimit plcontinue
  assume "e \<in> set (fst (get_links page_name (Some 0) script))"
    and "e = LinksRequest titles pllimit plcontinue"
  then show "pllimit = 0"
    by (simp add: get_links_def Let_def get_links_loop_requests)
next
  show "get_links ''Elon Musk'' (Some 0)
        [links_response (Some [link 0 ''Tesla'', link 4 ''Wikipedia:Citation needed'']) (Some (JStr ''736|0|SpaceX'')),
         links_response (Some [link 0 ''SpaceX'']) None]
      = ([LinksRequest ''Elon_Musk'' 0 None,
          LogInfoContinue ''Elon Musk'' (JStr ''736|0|SpaceX''),
          LinksRequest ''Elon_Musk'' 0 (Some (JStr ''736|0|SpaceX'')),
          LogInfoFewer ''Elon Musk'' (Some 0)],
         Return [JStr ''Tesla'', JStr ''SpaceX''])"
    by (simp add: get_links_def links_response_def link_def pages_popitem_def continue_field_def
          replace_spaces_def Let_def)
next
  fix links pl
  assume "\<forall>l \<in> set links. link_ok l"
  then show "collect_links links (Some 0) pl = Completed (pl @ map link_title (filter is_ns0 links))"
    by (rule collect_links_all)
next
  fix evs titles
  assume "get_links page_name (Some 0) script = (evs, Return titles)"
  then have "get_links_loop page_name (Some 0) 0 JNull [] script = (evs, Return titles)"
    by (simp add: get_links_def Let_def)
  from get_links_loop_reads_all [OF this]
  show "titles = map link_title (filter is_ns0
                   (concat (map response_links (take (length (filter is_request evs)) script))))"
    by simp
next
  fix rs :: "(json list \<times> json) list" and last_ls unread
  assume "(\<forall>r \<in> set rs. \<forall>l \<in> set (fst r). link_ok l) \<and> (\<forall>l \<in> set last_ls. link_ok l)"
  then have a: "\<forall>r \<in> set rs. \<forall>l \<in> set (fst r). link_ok l" and b: "\<forall>l \<in> set last_ls. link_ok l"
    by blast+
  from get_links_loop_all_pages [OF a b, of page_name 0 JNull "[]" unread]
  show "snd (get_links page_name (Some 0)
               (map (\<lambda>r. links_response (Some (fst r)) (Some (snd r))) rs
                @ links_response (Some last_ls) None # unread))
          = Return (map link_title (filter is_ns0 (concat (map fst rs) @ last_ls)))"
    by (simp add: get_links_def Let_def)
qed

theorem get_links_zero_never_returns_early_witness:
  "snd (get_links ''Elon Musk'' (Some 0) [links_response (Some [link 0 ''Tesla'']) None])
     = snd (get_links ''Elon Musk'' None [links_response (Some [link 0 ''Tesla'']) None])
   \<and> (\<exists>evs. fst (get_links ''Elon Musk'' (Some 0) [links_response (Some [link 0 ''Tesla'']) None])
         = LinksRequest ''Elon_Musk'' 0 None # evs)
   \<and> collect_links [link 0 ''Tesla'', link 2 ''User:X'', link 0 ''SpaceX''] (Some 0) []
       = Completed [JStr ''Tesla'', JStr ''SpaceX'']
   \<and> snd (get_links ''Elon Musk'' (Some 0)
            [links_response (Some [link 0 ''Tesla'', link 0 ''SpaceX'']) (Some (JStr ''c1'')),
             links_response (Some [link 2 ''User:X'', link 0 ''PayPal'']) None])
       = Return [JStr ''Tesla'', JStr ''SpaceX'', JStr ''PayPal'']"
proof -
  let ?s = "[links_response (Some [link 0 ''Tesla'']) None]"
  note T = get_links_zero_never_returns_early [of "''Elon Musk''" ?s]
  have f: "fst (get_links ''Elon Musk'' (Some 0) ?s)
             = [LinksRequest ''Elon_Musk'' 0 None, LogInfoFewer ''Elon Musk'' (Some 0)]"
    by (simp add: get_links_def links_response_def link_def pages_popitem_def continue_field_def
          replace_spaces_def Let_def)
  then have "LinksRequest ''Elon_Musk'' 0 None \<in> set (fst (get_links ''Elon Musk'' (Some 0) ?s))"
    by simp
  from T [THEN conjunct2, THEN conjunct2, THEN conjunct1, rule_format, OF this refl] f
  have 2: "\<exists>evs. fst (get_links ''Elon Musk'' (Some 0) ?s) = LinksRequest ''Elon_Musk'' 0 None # evs"
    by simp
  have ok: "link_ok (link n t)" for n t
    by (simp add: link_ok_def link_def)
  have "\<forall>l \<in> set [link 0 ''Tesla'', link 2 ''User:X'', link 0 ''SpaceX'']. link_ok l"
    by (simp add: ok)
  from T [THEN conjunct2, THEN conjunct2, THEN conjunct2, THEN conjunct2, THEN conjunct1,
          THEN spec [where x = "[link 0 ''Tesla'', link 2 ''User:X'', link 0 ''SpaceX'']"],
          THEN spec [where x = "[]"], THEN mp, OF this]
  have 3: "collect_links [link 0 ''Tesla'', link 2 ''User:X'', link 0 ''SpaceX''] (Some 0) []
       = Completed [JStr ''Tesla'', JStr ''SpaceX'']"
    by (simp add: is_ns0_def link_title_def link_def)
  have "(\<forall>r \<in> set [([link 0 ''Tesla'', link 0 ''SpaceX''], JStr ''c1'')]. \<forall>l \<in> set (fst r). link_ok l)
        \<and> (\<forall>l \<in> set [link 2 ''User:X'', link 0 ''PayPal'']. link_ok l)"
    by (simp add: ok)
  from T [THEN conjunct2, THEN conjunct2, THEN conjunct2, THEN conjunct2, THEN conjunct2,
          THEN conjunct2,
          THEN spec [where x = "[([link 0 ''Tesla'', link 0 ''SpaceX''], JStr ''c1'')]"],
          THEN spec [where x = "[link 2 ''User:X'', link 0 ''PayPal'']"],
          THEN spec [where x = "[]"], THEN mp, OF this]
  have 4: "snd (get_links ''Elon Musk'' (Some 0)
            [links_response (Some [link 0 ''Tesla'', link 0 ''SpaceX'']) (Some (JStr ''c1'')),
             links_response (Some [link 2 ''User:X'', link 0 ''PayPal'']) None])
       = Return [JStr ''Tesla'', JStr ''SpaceX'', JStr ''PayPal'']"
    by (simp add: is_ns0_def link_title_def link_def)
  from T [THEN conjunct2, THEN conjunct1] 2 3 4 show ?thesis by (intro conjI)
qed

subsection \<open>A requested count of at least 1\<close>

lemma collect_links_count:
  "int (length pl) < n \<Longrightarrow>
   (collect_links links (Some n) pl = ReturnEarly pl' \<longrightarrow> int (length pl') = n)
   \<and> (collect_links links (Some n) pl = Completed pl' \<longrightarrow> int (length pl') < n)"
proof (induction links arbitrary: pl)
  case Nil
  then show ?case by auto
next
  case (Cons l links)
  show ?case
  proof (cases "is_ns0 l")
    case False
    with Cons show ?thesis
      by (simp add: collect_links_Cons del: collect_links.simps split: sum.splits)
  next
    case True
    show ?thesis
    proof (cases "getitem l ''title''")
      case (Inl e)
      with True show ?thesis by (simp add: collect_links_Cons del: collect_links.simps)
    next
      case (Inr title)
      show ?thesis
      proof (cases "int (length (pl @ [title])) = n")
        case eq: True
        with True Inr show ?thesis by (auto simp: collect_links_Cons simp del: collect_links.simps)
      next
        case neq: False
        with Cons.prems have "int (length (pl @ [title])) < n" by simp
        from Cons.IH [OF this] True Inr neq show ?thesis
          by (simp add: collect_links_Cons del: collect_links.simps)
      qed
    qed
  qed
qed

lemma get_links_loop_count:
  "int (length pl) < n \<Longrightarrow>
   get_links_loop page_name (Some n) pllimit plcontinue pl script = (evs, Return titles) \<Longrightarrow>
   int (length titles) \<le> n
   \<and> (int (length titles) < n \<longrightarrow>
        last evs = LogErrorNoLinks page_name \<or> last evs = LogInfoFewer page_name (Some n))"
proof (induction script arbitrary: plcontinue pl evs)
  case Nil
  then show ?case by simp
next
  case (Cons r script)
  from Cons.prems(2) obtain json_data where r: "r = Body json_data" by (cases r) simp_all
  from Cons.prems(2) r obtain page where page: "pages_popitem json_data = Inr page"
    by (cases "pages_popitem json_data") (simp_all add: Let_def)
  show ?case
  proof (cases "getitem page ''links''")
    case (Inl e)
    with Cons.prems r page show ?thesis by (auto simp: Let_def split: if_splits)
  next
    case (Inr links)
    with Cons.prems(2) r page obtain link_list where ll: "py_iter links = Inr link_list"
      by (cases "py_iter links") (simp_all add: Let_def)
    note cnt = collect_links_count [OF Cons.prems(1), of link_list]
    show ?thesis
    proof (cases "collect_links link_list (Some n) pl")
      case (ForRaise e)
      with Cons.prems(2) r page Inr ll show ?thesis by (simp add: Let_def)
    next
      case (ReturnEarly pl')
      with Cons.prems(2) r page Inr ll have "titles = pl'" by (simp add: Let_def)
      with cnt [of pl'] ReturnEarly show ?thesis by simp
    next
      case (Completed pl')
      with cnt [of pl'] have lt: "int (length pl') < n" by simp
      show ?thesis
      proof (cases "continue_field json_data")
        case (Inl e)
        with Cons.prems(2) r page Inr ll Completed lt show ?thesis
          by (auto simp: Let_def split: if_splits)
      next
        case cont: (Inr plcontinue')
        obtain evs' out' where rec:
          "get_links_loop page_name (Some n) pllimit plcontinue' pl' script = (evs', out')"
          by (cases "get_links_loop page_name (Some n) pllimit plcontinue' pl' script")
        with Cons.prems(2) r page Inr ll Completed cont
        have out: "out' = Return titles"
          and evs: "evs = LinksRequest (replace_spaces page_name) pllimit
                            (if plcontinue = JNull then None else Some plcontinue)
                          # LogInfoContinue page_name plcontinue' # evs'"
          by (simp_all add: Let_def)
        from Cons.IH [OF lt rec [unfolded out]]
        have ih: "int (length titles) \<le> n
          \<and> (int (length titles) < n \<longrightarrow>
               last evs' = LogErrorNoLinks page_name \<or> last evs' = LogInfoFewer page_name (Some n))" .
        have "evs' \<noteq> []"
          using get_links_loop_first [of page_name "Some n" pllimit plcontinue' pl' script] rec
          by auto
        with evs have "last evs = last evs'" by simp
        with ih show ?thesis by simp
      qed
    qed
  qed
qed

lemma get_links_count:
  assumes "0 < n" and "get_links page_name (Some n) script = (evs, Return titles)"
  shows "int (length titles) \<le> n"
    and "int (length titles) < n \<Longrightarrow>
           last evs = LogErrorNoLinks page_name \<or> last evs = LogInfoFewer page_name (Some n)"
proof -
  from assms(2) obtain pllimit where
    l: "get_links_loop page_name (Some n) pllimit JNull [] script = (evs, Return titles)"
    by (simp add: get_links_def Let_def)
  from assms(1) have "int (length ([]::json list)) < n" by simp
  from get_links_loop_count [OF this l]
  show "int (length titles) \<le> n"
    and "int (length titles) < n \<Longrightarrow>
           last evs = LogErrorNoLinks page_name \<or> last evs = LogInfoFewer page_name (Some n)"
    by blast+
qed

text \<open>
  Claim C5. \<^verbatim>\<open>get_links(page, 0)\<close> on a response with one namespace-0 link and no
  continuation returns that link's title: one title, where the count asked for is 0.
  (For a count of at least 1 the bound holds, and fewer titles come back only when a
  response lacked its \<^verbatim>\<open>links\<close> field or its continuation: \<open>get_links_count\<close> above.)
\<close>

theorem get_links_zero_exceeds_count:
  "get_links ''Elon Musk'' (Some 0) [links_response (Some [link 0 ''Tesla'']) None]
     = ([LinksRequest ''Elon_Musk'' 0 None, LogInfoFewer ''Elon Musk'' (Some 0)], Return [JStr ''Tesla''])
   \<and> int (length [JStr ''Tesla'']) > 0"
  by (simp add: get_links_def links_response_def link_def pages_popitem_def continue_field_def
        replace_spaces_def Let_def)

end
